theory Spec2Isabelle
  imports Main "HOL-Library.Multiset" "HOL-Library.Sublist" "HOL-Library.Word"
begin

section \<open>Data model of the choice-list editor\<close>

text \<open>
  The widget \<^verbatim>\<open>ChoiceListEntry\<close> edits the list of allowed values of a Choice column and
  the colours of each value. A JavaScript string is a list of characters: the editor
  compares strings and never looks into one, so its definitions leave the type \<open>'c\<close> of
  the characters open. The inactive list box builds the texts of its rows from literals of
  the source, which are of type \<^typ>\<open>string\<close>; the clipboard functions read and write
  UTF-16 code units.
  \<^verbatim>\<open>IChoiceOptions\<close> is imported by the source from \<^verbatim>\<open>ChoiceTextBox\<close>; the source reads and
  writes exactly its two string fields.
\<close>

record 'c IChoiceOptions =
  textColor :: "'c list"
  fillColor :: "'c list"

text \<open>
  \<^verbatim>\<open>class ChoiceItem implements IToken { constructor(public label: string,
  public options?: IChoiceOptions) {} }\<close>; an absent \<^verbatim>\<open>options\<close> is \<open>None\<close>.
\<close>

record 'c ChoiceItem =
  label :: "'c list"
  options :: "'c IChoiceOptions option"

definition new_ChoiceItem :: "'c list \<Rightarrow> 'c IChoiceOptions option \<Rightarrow> 'c ChoiceItem" where
  "new_ChoiceItem l opts = \<lparr>label = l, options = opts\<rparr>"

text \<open>
  \<^verbatim>\<open>ChoiceOptionsByName\<close> is a JavaScript \<^verbatim>\<open>Map<string, IChoiceOptions>\<close>: its entries
  are kept in insertion order and its keys are unique. It is modelled as the list of its
  entries; \<open>Map_set\<close> overwrites the value of a key that is present and appends a new
  key at the end, \<open>Map_get\<close> reads a key (\<open>None\<close> is \<^verbatim>\<open>undefined\<close>).
\<close>

type_synonym 'c ChoiceOptionsByName = "('c list \<times> 'c IChoiceOptions) list"

fun Map_get :: "('k \<times> 'v) list \<Rightarrow> 'k \<Rightarrow> 'v option" where
  "Map_get [] k = None"
| "Map_get ((k', v') # m) k = (if k' = k then Some v' else Map_get m k)"

fun Map_set :: "('k \<times> 'v) list \<Rightarrow> 'k \<Rightarrow> 'v \<Rightarrow> ('k \<times> 'v) list" where
  "Map_set [] k v = [(k, v)]"
| "Map_set ((k', v') # m) k v =
     (if k' = k then (k, v) # m else (k', v') # Map_set m k v)"

definition UNSET_COLOR :: string where
  "UNSET_COLOR = ''#ffffff''"

text \<open>
  \<^verbatim>\<open>DEFAULT_TEXT_COLOR\<close> is imported from \<^verbatim>\<open>ChoiceToken\<close>, which is not among the
  sources; it is a parameter of \<open>getTextColor\<close>.
\<close>

definition getTextColor :: "'c list \<Rightarrow> 'c IChoiceOptions option \<Rightarrow> 'c list" where
  "getTextColor DEFAULT_TEXT_COLOR choiceOptions =
     (case choiceOptions of None \<Rightarrow> DEFAULT_TEXT_COLOR | Some opts \<Rightarrow> textColor opts)"

definition getFillColor :: "char IChoiceOptions option \<Rightarrow> string" where
  "getFillColor choiceOptions =
     (case choiceOptions of None \<Rightarrow> UNSET_COLOR | Some opts \<Rightarrow> fillColor opts)"

section \<open>Library functions used by the widget\<close>

subsection \<open>lodash \<^verbatim>\<open>uniqBy\<close>\<close>

text \<open>
  \<^verbatim>\<open>uniqBy(array, iteratee)\<close> walks the array from the front, keeps the list \<open>seen\<close> of
  the iteratee values met so far, and pushes an element onto the result when its iteratee
  value is not among them.
\<close>

fun baseUniq :: "('a \<Rightarrow> 'b) \<Rightarrow> 'a list \<Rightarrow> 'b list \<Rightarrow> 'a list \<Rightarrow> 'a list" where
  "baseUniq iteratee [] seen result = result"
| "baseUniq iteratee (v # array) seen result =
     (if iteratee v \<in> set seen then baseUniq iteratee array seen result
      else baseUniq iteratee array (seen @ [iteratee v]) (result @ [v]))"

definition uniqBy :: "'a list \<Rightarrow> ('a \<Rightarrow> 'b) \<Rightarrow> 'a list" where
  "uniqBy array iteratee = baseUniq iteratee array [] []"

subsection \<open>lodash \<^verbatim>\<open>isEqual\<close>\<close>

text \<open>
  On two arrays of strings \<^verbatim>\<open>isEqual\<close> compares the lengths and then the elements index
  by index, and on two \<^verbatim>\<open>IChoiceOptions\<close> objects it compares the fields: both are
  equality of the model's values. On two \<^verbatim>\<open>Map\<close>s it compares the sizes and then looks,
  for each entry of the first map in turn, for an equal entry of the second one that no
  earlier entry has been matched with (\<^verbatim>\<open>equalArrays\<close> with the unordered flag and its
  cache of matched indices; taking the matched entry out of the list stands for the cache).
\<close>

fun equalArrays_unordered :: "'a list \<Rightarrow> 'a list \<Rightarrow> bool" where
  "equalArrays_unordered [] other = True"
| "equalArrays_unordered (arrValue # array) other =
     (arrValue \<in> set other \<and> equalArrays_unordered array (remove1 arrValue other))"

definition isEqual_Map :: "('k \<times> 'v) list \<Rightarrow> ('k \<times> 'v) list \<Rightarrow> bool" where
  "isEqual_Map object other =
     (length object = length other \<and> equalArrays_unordered object other)"

section \<open>The editor\<close>

text \<open>
  \<^verbatim>\<open>TokenField\<close> (\<^verbatim>\<open>app/client/lib/TokenField\<close>) is not among the sources. The editor
  reads two things from it: \<^verbatim>\<open>tokensObs.get()\<close>, the tokens of the session in order, and
  \<^verbatim>\<open>getTextInputValue()\<close>, the text typed but not yet turned into a token.
\<close>

record 'c TokenField =
  tokensObs :: "'c ChoiceItem list"
  getTextInputValue :: "'c list"

text \<open>
  Modelled from the spec: the constructor of \<^verbatim>\<open>TokenField\<close> is missing. The spec says
  that the session's initial content is the tokens it is created with
  (\<^verbatim>\<open>initialValue\<close>) and that the text input normally starts empty.
\<close>

definition TokenField_create :: "'c ChoiceItem list \<Rightarrow> 'c TokenField" where
  "TokenField_create initialValue = \<lparr>tokensObs = initialValue, getTextInputValue = []\<rparr>"

text \<open>
  The fields of the class. \<open>onSave_calls\<close> records the arguments of every invocation of
  the save callback \<^verbatim>\<open>_onSave\<close>, oldest first.
\<close>

record 'c ChoiceListEntry =
  isEditing :: bool
  tokenFieldHolder :: "'c TokenField option"
  valuesObs :: "'c list list"
  choiceOptionsByName :: "'c ChoiceOptionsByName"
  onSave_calls :: "('c list list \<times> 'c ChoiceOptionsByName) list"

text \<open>
  What the callback does to the two observables before it returns. The host owns them;
  the callback is a parameter of the model: it maps its arguments to the writes it
  performs, in order. A write to an observable is a change the observable reports (grainjs
  compares by reference, and the arrays and maps written are new objects).
\<close>

datatype 'c host_write = SetValues "'c list list" | SetOptions "'c ChoiceOptionsByName"

type_synonym 'c onSave_callback = "'c list list \<Rightarrow> 'c ChoiceOptionsByName \<Rightarrow> 'c host_write list"

text \<open>
  \<^verbatim>\<open>buildDom\<close> renders through \<^verbatim>\<open>dom.domComputed(this._isEditing, ...)\<close>: when the flag
  changes, the branch for the new mode is built. The edit branch creates a new
  \<^verbatim>\<open>TokenField\<close> in \<^verbatim>\<open>_tokenFieldHolder\<close> (replacing the one held), one token per value
  with the value's options; the view branch leaves the holder alone.
\<close>

definition initialValue :: "'c ChoiceListEntry \<Rightarrow> 'c ChoiceItem list" where
  "initialValue s =
     map (\<lambda>l. new_ChoiceItem l (Map_get (choiceOptionsByName s) l)) (valuesObs s)"

definition buildDom_mode :: "'c ChoiceListEntry \<Rightarrow> 'c ChoiceListEntry" where
  "buildDom_mode s =
     (if isEditing s
      then s\<lparr>tokenFieldHolder := Some (TokenField_create (initialValue s))\<rparr>
      else s)"

text \<open>\<^verbatim>\<open>Observable.set\<close> notifies its listeners only when the value changes.\<close>

definition isEditing_set :: "bool \<Rightarrow> 'c ChoiceListEntry \<Rightarrow> 'c ChoiceListEntry" where
  "isEditing_set b s = (if isEditing s = b then s else buildDom_mode (s\<lparr>isEditing := b\<rparr>))"

definition startEditing :: "'c ChoiceListEntry \<Rightarrow> 'c ChoiceListEntry" where
  "startEditing s = isEditing_set True s"

definition cancel :: "'c ChoiceListEntry \<Rightarrow> 'c ChoiceListEntry" where
  "cancel s = isEditing_set False s"

text \<open>
  The constructor adds a listener to \<^verbatim>\<open>_values\<close> that calls \<^verbatim>\<open>_cancel\<close>; there is no
  listener on \<^verbatim>\<open>_choiceOptionsByName\<close> that touches the mode.
\<close>

definition values_changed :: "'c list list \<Rightarrow> 'c ChoiceListEntry \<Rightarrow> 'c ChoiceListEntry" where
  "values_changed v s = cancel (s\<lparr>valuesObs := v\<rparr>)"

definition options_changed :: "'c ChoiceOptionsByName \<Rightarrow> 'c ChoiceListEntry \<Rightarrow> 'c ChoiceListEntry" where
  "options_changed m s = s\<lparr>choiceOptionsByName := m\<rparr>"

fun host_write_apply :: "'c host_write \<Rightarrow> 'c ChoiceListEntry \<Rightarrow> 'c ChoiceListEntry" where
  "host_write_apply (SetValues v) s = values_changed v s"
| "host_write_apply (SetOptions m) s = options_changed m s"

definition call_onSave ::
  "'c onSave_callback \<Rightarrow> 'c list list \<Rightarrow> 'c ChoiceOptionsByName \<Rightarrow> 'c ChoiceListEntry \<Rightarrow> 'c ChoiceListEntry" where
  "call_onSave onSave newValues newOptions s =
     fold host_write_apply (onSave newValues newOptions)
       (s\<lparr>onSave_calls := onSave_calls s @ [(newValues, newOptions)]\<rparr>)"

subsection \<open>Saving\<close>

text \<open>
  The first half of \<^verbatim>\<open>_save\<close>: the token list with the pending text pushed onto it
  (the push mutates the array \<^verbatim>\<open>tokensObs\<close> holds), and the candidate computed from it.
\<close>

definition save_tokens :: "'c TokenField \<Rightarrow> 'c ChoiceItem list" where
  "save_tokens tokenField =
     (let tokens = tokensObs tokenField;
          tokenInputVal = getTextInputValue tokenField
      in if tokenInputVal \<noteq> [] then tokens @ [new_ChoiceItem tokenInputVal None] else tokens)"

definition newOptions_set :: "'c ChoiceItem \<Rightarrow> 'c ChoiceOptionsByName \<Rightarrow> 'c ChoiceOptionsByName" where
  "newOptions_set t newOptions =
     (case options t of
        None \<Rightarrow> newOptions
      | Some opts \<Rightarrow>
          Map_set newOptions (label t) \<lparr>textColor = textColor opts, fillColor = fillColor opts\<rparr>)"

definition save_candidate :: "'c ChoiceItem list \<Rightarrow> 'c list list \<times> 'c ChoiceOptionsByName" where
  "save_candidate tokens =
     (let newTokens = uniqBy tokens label;
          newValues = map label newTokens;
          newOptions = fold newOptions_set newTokens []
      in (newValues, newOptions))"

definition save :: "'c onSave_callback \<Rightarrow> 'c ChoiceListEntry \<Rightarrow> 'c ChoiceListEntry" where
  "save onSave s =
     (case tokenFieldHolder s of
        None \<Rightarrow> s
      | Some tokenField \<Rightarrow>
          (let tokens = save_tokens tokenField;
               s1 = s\<lparr>tokenFieldHolder := Some (tokenField\<lparr>tokensObs := tokens\<rparr>)\<rparr>;
               (newValues, newOptions) = save_candidate tokens
           in if valuesObs s1 \<noteq> newValues
                 \<or> \<not> isEqual_Map (choiceOptionsByName s1) newOptions
              then call_onSave onSave newValues newOptions s1
              else cancel s1))"

subsection \<open>View mode\<close>

text \<open>
  \<^verbatim>\<open>values.slice(0, end)\<close>: a negative \<open>end\<close> counts from the end of the array. The
  row cap \<^verbatim>\<open>maxRows\<close> is a JavaScript number; the model covers the integers.
\<close>

definition slice0 :: "'a list \<Rightarrow> int \<Rightarrow> 'a list" where
  "slice0 xs end =
     (let len = int (length xs);
          k = (if end < 0 then max (len + end) 0 else min end len)
      in take (nat k) xs)"

text \<open>
  The template literal turns the number into its decimal numeral (\<^verbatim>\<open>Number::toString\<close>),
  with a minus sign first when it is negative.
\<close>

definition digit_char :: "nat \<Rightarrow> char" where
  "digit_char d = ''0123456789'' ! d"

fun digits_acc :: "nat \<Rightarrow> string \<Rightarrow> string" where
  "digits_acc n acc =
     (if n < 10 then digit_char n # acc
      else digits_acc (n div 10) (digit_char (n mod 10) # acc))"

definition Number_toString :: "int \<Rightarrow> string" where
  "Number_toString i =
     (if 0 \<le> i then digits_acc (nat i) [] else CHR ''-'' # digits_acc (nat (- i)) [])"

text \<open>
  A row of the inactive list box: a row of text, or a row for a choice with the fill colour
  of its colour square and its label.
\<close>

datatype row = Row_text string | Row_choice string string

definition someValues :: "int \<Rightarrow> string list \<Rightarrow> string list" where
  "someValues maxRows vs =
     (if int (length vs) \<le> maxRows then vs else slice0 vs (maxRows - 1))"

definition buildDom_view :: "int \<Rightarrow> string list \<Rightarrow> char ChoiceOptionsByName \<Rightarrow> row list" where
  "buildDom_view maxRows vs choiceOptions =
     (if length (someValues maxRows vs) = 0 then [Row_text ''No choices configured''] else [])
     @ map (\<lambda>val. Row_choice (getFillColor (Map_get choiceOptions val)) val)
         (someValues maxRows vs)
     @ (if int (length vs) > maxRows
        then [Row_text (''+'' @ Number_toString (int (length vs) - (maxRows - 1)) @ '' more'')]
        else [])"


section \<open>Strings of code units\<close>

text \<open>
  A JavaScript string is a sequence of UTF-16 code units. The clipboard functions read and
  write the characters of strings, so their strings are lists of 16-bit words; a character
  outside the Basic Multilingual Plane is a leading surrogate followed by a trailing one.
  \<open>U\<close> is the code unit of an ASCII character and \<open>str\<close> the string of an ASCII
  text, for the literals of the source.
\<close>

type_synonym code_unit = "16 word"
type_synonym js_string = "code_unit list"

abbreviation U :: "char \<Rightarrow> code_unit" where "U c \<equiv> of_char c"

definition str :: "string \<Rightarrow> js_string" where
  "str s = map U s"

abbreviation DQUOTE :: code_unit where "DQUOTE \<equiv> 0x22"
abbreviation BACKSLASH :: code_unit where "BACKSLASH \<equiv> 0x5C"
abbreviation NEWLINE :: code_unit where "NEWLINE \<equiv> 0x0A"

section \<open>JSON\<close>

text \<open>
  The values \<^verbatim>\<open>JSON.parse\<close> returns. A number keeps the text it was written with (the
  code never reads one); an object is the list of its properties in the order of the
  text, each name once (the code reads the properties of a parsed object by name only).
\<close>

datatype json =
    JNull
  | JBool bool
  | JNumber "js_string"
  | JString "js_string"
  | JArray "json list"
  | JObject "(js_string \<times> json) list"


subsection \<open>\<^verbatim>\<open>JSON.parse\<close>\<close>

definition is_ws :: "code_unit \<Rightarrow> bool" where
  "is_ws c = (c = U (CHR '' '') \<or> c = 0x09 \<or> c = 0x0A \<or> c = 0x0D)"

definition skip_ws :: "js_string \<Rightarrow> js_string" where
  "skip_ws s = dropWhile is_ws s"

definition is_digit :: "code_unit \<Rightarrow> bool" where
  "is_digit c = (48 \<le> unat c \<and> unat c \<le> 57)"

definition hex_value :: "code_unit \<Rightarrow> nat option" where
  "hex_value c =
     (let n = unat c
      in if 48 \<le> n \<and> n \<le> 57 then Some (n - 48)
         else if 97 \<le> n \<and> n \<le> 102 then Some (n - 87)
         else if 65 \<le> n \<and> n \<le> 70 then Some (n - 55)
         else None)"

text \<open>
  The escape \<^verbatim>\<open>\uXXXX\<close> denotes the code unit with that number, whatever the four
  hexadecimal digits are: a surrogate too, paired or not.
\<close>

definition unicode_escape :: "code_unit \<Rightarrow> code_unit \<Rightarrow> code_unit \<Rightarrow> code_unit \<Rightarrow> code_unit option" where
  "unicode_escape a b c d =
     (case hex_value a of None \<Rightarrow> None | Some h1 \<Rightarrow>
      case hex_value b of None \<Rightarrow> None | Some h2 \<Rightarrow>
      case hex_value c of None \<Rightarrow> None | Some h3 \<Rightarrow>
      case hex_value d of None \<Rightarrow> None | Some h4 \<Rightarrow>
        Some (of_nat (((h1 * 16 + h2) * 16 + h3) * 16 + h4)))"

definition simple_escape :: "code_unit \<Rightarrow> code_unit option" where
  "simple_escape e =
     (if e = DQUOTE then Some DQUOTE
      else if e = BACKSLASH then Some BACKSLASH
      else if e = U (CHR ''/'') then Some (U (CHR ''/''))
      else if e = U (CHR ''b'') then Some 0x08
      else if e = U (CHR ''f'') then Some 0x0C
      else if e = U (CHR ''n'') then Some 0x0A
      else if e = U (CHR ''r'') then Some 0x0D
      else if e = U (CHR ''t'') then Some 0x09
      else None)"

definition cons_char ::
  "code_unit \<Rightarrow> (js_string \<times> js_string) option \<Rightarrow> (js_string \<times> js_string) option" where
  "cons_char c r = (case r of None \<Rightarrow> None | Some (s, rest) \<Rightarrow> Some (c # s, rest))"

text \<open>
  The characters of a string after its opening quote, up to the closing quote: the string
  denoted and the text after the closing quote. A control character must be escaped; every
  other code unit stands for itself.
\<close>

fun parse_chars :: "js_string \<Rightarrow> (js_string \<times> js_string) option" where
  "parse_chars [] = None"
| "parse_chars (c # cs) =
     (if c = DQUOTE then Some ([], cs)
      else if c = BACKSLASH then
        (case cs of
           [] \<Rightarrow> None
         | e # cs1 \<Rightarrow>
             if e = U (CHR ''u'') then
               (case cs1 of
                  h1 # h2 # h3 # h4 # cs2 \<Rightarrow>
                    (case unicode_escape h1 h2 h3 h4 of
                       None \<Rightarrow> None
                     | Some ch \<Rightarrow> cons_char ch (parse_chars cs2))
                | _ \<Rightarrow> None)
             else
               (case simple_escape e of
                  None \<Rightarrow> None
                | Some ch \<Rightarrow> cons_char ch (parse_chars cs1)))
      else if unat c < 32 then None
      else cons_char c (parse_chars cs))"

text \<open>
  A number: an optional minus sign, \<^verbatim>\<open>0\<close> or digits not starting with \<^verbatim>\<open>0\<close>, an optional
  fraction, an optional exponent. The result is the text of the number and what follows.
\<close>

definition parse_digits :: "js_string \<Rightarrow> (js_string \<times> js_string) option" where
  "parse_digits s =
     (if takeWhile is_digit s = [] then None
      else Some (takeWhile is_digit s, dropWhile is_digit s))"

definition parse_int :: "js_string \<Rightarrow> (js_string \<times> js_string) option" where
  "parse_int s =
     (case s of
        [] \<Rightarrow> None
      | c # cs \<Rightarrow> if c = U (CHR ''0'') then Some ([c], cs) else parse_digits s)"

definition parse_frac :: "js_string \<Rightarrow> (js_string \<times> js_string) option" where
  "parse_frac s =
     (case s of
        [] \<Rightarrow> Some ([], s)
      | c # cs \<Rightarrow>
          if c = U (CHR ''.'') then
            (case parse_digits cs of None \<Rightarrow> None | Some (ds, r) \<Rightarrow> Some (c # ds, r))
          else Some ([], s))"

definition parse_exp :: "js_string \<Rightarrow> (js_string \<times> js_string) option" where
  "parse_exp s =
     (case s of
        [] \<Rightarrow> Some ([], s)
      | c # cs \<Rightarrow>
          if c = U (CHR ''e'') \<or> c = U (CHR ''E'') then
            (case cs of
               [] \<Rightarrow> None
             | g # cs1 \<Rightarrow>
                 if g = U (CHR ''+'') \<or> g = U (CHR ''-'') then
                   (case parse_digits cs1 of
                      None \<Rightarrow> None
                    | Some (ds, r) \<Rightarrow> Some (c # g # ds, r))
                 else
                   (case parse_digits cs of
                      None \<Rightarrow> None
                    | Some (ds, r) \<Rightarrow> Some (c # ds, r)))
          else Some ([], s))"

definition parse_number :: "js_string \<Rightarrow> (js_string \<times> js_string) option" where
  "parse_number s =
     (let (sign, s1) = (case s of
                          [] \<Rightarrow> ([], s)
                        | c # cs \<Rightarrow> if c = U (CHR ''-'') then ([c], cs) else ([], s))
      in case parse_int s1 of None \<Rightarrow> None | Some (i, s2) \<Rightarrow>
         case parse_frac s2 of None \<Rightarrow> None | Some (f, s3) \<Rightarrow>
         case parse_exp s3 of None \<Rightarrow> None | Some (e, s4) \<Rightarrow>
           Some (sign @ i @ f @ e, s4))"

text \<open>
  The properties of an object, from its members in the order of the text: a name that
  occurs again keeps its place and takes the later value.
\<close>

definition object_of_members :: "(js_string \<times> json) list \<Rightarrow> (js_string \<times> json) list" where
  "object_of_members ms = fold (\<lambda>(k, v) obj. Map_set obj k v) ms []"

text \<open>
  The recursive descent over values. The first argument bounds the number of nested calls;
  \<open>JSON_parse\<close> starts with a bound that no text exhausts, since every second call is on
  a shorter text (lemma \<open>JSON_parse_any_fuel\<close> below). \<open>parse_elements\<close> reads the elements of an array and its closing
  bracket, \<open>parse_members\<close> the members of an object and its closing brace; both start
  after the opening character of an array or object that is not empty.
\<close>

fun parse_value :: "nat \<Rightarrow> js_string \<Rightarrow> (json \<times> js_string) option"
  and parse_elements :: "nat \<Rightarrow> js_string \<Rightarrow> (json list \<times> js_string) option"
  and parse_members :: "nat \<Rightarrow> js_string \<Rightarrow> ((js_string \<times> json) list \<times> js_string) option"
where
  "parse_value 0 s = None"
| "parse_value (Suc n) s =
     (case skip_ws s of
        [] \<Rightarrow> None
      | c # cs \<Rightarrow>
          if c = DQUOTE then
            (case parse_chars cs of None \<Rightarrow> None | Some (chars, r) \<Rightarrow> Some (JString chars, r))
          else if c = U (CHR ''['') then
            (case skip_ws cs of
               [] \<Rightarrow> None
             | d # r \<Rightarrow>
                 if d = U (CHR '']'') then Some (JArray [], r)
                 else (case parse_elements n cs of
                         None \<Rightarrow> None
                       | Some (vs, r') \<Rightarrow> Some (JArray vs, r')))
          else if c = U (CHR ''{'') then
            (case skip_ws cs of
               [] \<Rightarrow> None
             | d # r \<Rightarrow>
                 if d = U (CHR ''}'') then Some (JObject [], r)
                 else (case parse_members n cs of
                         None \<Rightarrow> None
                       | Some (ms, r') \<Rightarrow> Some (JObject (object_of_members ms), r')))
          else if take 4 (c # cs) = str ''true'' then Some (JBool True, drop 4 (c # cs))
          else if take 5 (c # cs) = str ''false'' then Some (JBool False, drop 5 (c # cs))
          else if take 4 (c # cs) = str ''null'' then Some (JNull, drop 4 (c # cs))
          else (case parse_number (c # cs) of
                  None \<Rightarrow> None
                | Some (num, r) \<Rightarrow> Some (JNumber num, r)))"
| "parse_elements 0 s = None"
| "parse_elements (Suc n) s =
     (case parse_value n s of
        None \<Rightarrow> None
      | Some (v, r) \<Rightarrow>
          (case skip_ws r of
             [] \<Rightarrow> None
           | c # r' \<Rightarrow>
               if c = U (CHR '','') then
                 (case parse_elements n r' of
                    None \<Rightarrow> None
                  | Some (vs, r'') \<Rightarrow> Some (v # vs, r''))
               else if c = U (CHR '']'') then Some ([v], r')
               else None))"
| "parse_members 0 s = None"
| "parse_members (Suc n) s =
     (case skip_ws s of
        [] \<Rightarrow> None
      | q # r \<Rightarrow>
          if q \<noteq> DQUOTE then None
          else
            (case parse_chars r of
               None \<Rightarrow> None
             | Some (k, r1) \<Rightarrow>
                 (case skip_ws r1 of
                    [] \<Rightarrow> None
                  | colon # r2 \<Rightarrow>
                      if colon \<noteq> U (CHR '':'') then None
                      else
                        (case parse_value n r2 of
                           None \<Rightarrow> None
                         | Some (v, r3) \<Rightarrow>
                             (case skip_ws r3 of
                                [] \<Rightarrow> None
                              | c # r4 \<Rightarrow>
                                  if c = U (CHR '','') then
                                    (case parse_members n r4 of
                                       None \<Rightarrow> None
                                     | Some (ms, r5) \<Rightarrow> Some ((k, v) # ms, r5))
                                  else if c = U (CHR ''}'') then Some ([(k, v)], r4)
                                  else None)))))"

text \<open>\<open>None\<close> is the \<^verbatim>\<open>SyntaxError\<close> \<^verbatim>\<open>JSON.parse\<close> throws.\<close>

definition JSON_parse :: "js_string \<Rightarrow> json option" where
  "JSON_parse s =
     (case parse_value (2 * length s + 1) s of
        None \<Rightarrow> None
      | Some (v, r) \<Rightarrow> if skip_ws r = [] then Some v else None)"

subsection \<open>\<^verbatim>\<open>JSON.stringify\<close>\<close>

definition hex_digit :: "nat \<Rightarrow> code_unit" where
  "hex_digit d = str ''0123456789abcdef'' ! d"

text \<open>\<^verbatim>\<open>UnicodeEscape\<close>: \<^verbatim>\<open>\u\<close> and the four lower-case hexadecimal digits of the code unit.\<close>

definition UnicodeEscape :: "code_unit \<Rightarrow> js_string" where
  "UnicodeEscape c =
     [BACKSLASH, U (CHR ''u''),
      hex_digit (unat c div 4096), hex_digit (unat c div 256 mod 16),
      hex_digit (unat c div 16 mod 16), hex_digit (unat c mod 16)]"

definition is_leading_surrogate :: "code_unit \<Rightarrow> bool" where
  "is_leading_surrogate c = (0xD800 \<le> unat c \<and> unat c \<le> 0xDBFF)"

definition is_trailing_surrogate :: "code_unit \<Rightarrow> bool" where
  "is_trailing_surrogate c = (0xDC00 \<le> unat c \<and> unat c \<le> 0xDFFF)"

text \<open>
  \<^verbatim>\<open>QuoteJSONString\<close> goes through the code points of the string: a leading surrogate
  followed by a trailing one is one code point and is written as it is. Of the others, the
  quote and the backslash are escaped, a control character is written with its short escape
  or its \<^verbatim>\<open>UnicodeEscape\<close>, a surrogate without its partner with its \<^verbatim>\<open>UnicodeEscape\<close>
  (well-formed \<^verbatim>\<open>JSON.stringify\<close>), any other code unit as it is.
\<close>

definition quote_unit :: "code_unit \<Rightarrow> js_string" where
  "quote_unit c =
     (if c = DQUOTE then [BACKSLASH, DQUOTE]
      else if c = BACKSLASH then [BACKSLASH, BACKSLASH]
      else if c = 0x08 then [BACKSLASH, U (CHR ''b'')]
      else if c = 0x0C then [BACKSLASH, U (CHR ''f'')]
      else if c = 0x0A then [BACKSLASH, U (CHR ''n'')]
      else if c = 0x0D then [BACKSLASH, U (CHR ''r'')]
      else if c = 0x09 then [BACKSLASH, U (CHR ''t'')]
      else if unat c < 32 \<or> is_leading_surrogate c \<or> is_trailing_surrogate c
      then UnicodeEscape c
      else [c])"

fun quote_units :: "js_string \<Rightarrow> js_string" where
  "quote_units [] = []"
| "quote_units [c] = quote_unit c"
| "quote_units (c # d # cs) =
     (if is_leading_surrogate c \<and> is_trailing_surrogate d then c # d # quote_units cs
      else quote_unit c @ quote_units (d # cs))"

definition QuoteJSONString :: "js_string \<Rightarrow> js_string" where
  "QuoteJSONString s = DQUOTE # quote_units s @ [DQUOTE]"

text \<open>Without indentation: no white space, a comma between elements and between members.\<close>

fun JSON_stringify :: "json \<Rightarrow> js_string"
  and stringify_elements :: "json list \<Rightarrow> js_string"
  and stringify_members :: "(js_string \<times> json) list \<Rightarrow> js_string"
where
  "JSON_stringify JNull = str ''null''"
| "JSON_stringify (JBool b) = (if b then str ''true'' else str ''false'')"
| "JSON_stringify (JNumber num) = num"
| "JSON_stringify (JString s) = QuoteJSONString s"
| "JSON_stringify (JArray vs) = U (CHR ''['') # stringify_elements vs"
| "JSON_stringify (JObject ms) = U (CHR ''{'') # stringify_members ms"
| "stringify_elements [] = [U (CHR '']'')]"
| "stringify_elements (v # vs) =
     JSON_stringify v @ (if vs = [] then [U (CHR '']'')] else U (CHR '','') # stringify_elements vs)"
| "stringify_members [] = [U (CHR ''}'')]"
| "stringify_members ((k, v) # ms) =
     QuoteJSONString k @ U (CHR '':'') # JSON_stringify v
     @ (if ms = [] then [U (CHR ''}'')] else U (CHR '','') # stringify_members ms)"

section \<open>The clipboard\<close>

text \<open>
  A \<^verbatim>\<open>DataTransfer\<close> holds one string for each format that was set, and \<^verbatim>\<open>getData\<close>
  returns the string that \<^verbatim>\<open>setData\<close> stored; \<^verbatim>\<open>getData\<close> of a format that was not set
  is the empty string. The names of the formats are the two literals of the source.
\<close>

type_synonym DataTransfer = "(string \<times> js_string) list"

definition getData :: "DataTransfer \<Rightarrow> string \<Rightarrow> js_string" where
  "getData clipboard format = (case Map_get clipboard format of None \<Rightarrow> [] | Some d \<Rightarrow> d)"

definition setData :: "DataTransfer \<Rightarrow> string \<Rightarrow> js_string \<Rightarrow> DataTransfer" where
  "setData clipboard format d = Map_set clipboard format d"

text \<open>\<^verbatim>\<open>Array.prototype.join\<close> and \<^verbatim>\<open>String.prototype.split\<close> with a one-character
  separator: the split of the empty string is one empty string.\<close>

fun join :: "'c list list \<Rightarrow> 'c list \<Rightarrow> 'c list" where
  "join [] sep = []"
| "join [x] sep = x"
| "join (x # y # ys) sep = x @ sep @ join (y # ys) sep"

fun split :: "'c list \<Rightarrow> 'c \<Rightarrow> 'c list list" where
  "split [] sep = [] # []"
| "split (c # cs) sep =
     (if c = sep then [] # split cs sep
      else (case split cs sep of [] \<Rightarrow> [c # []] | l # ls \<Rightarrow> (c # l) # ls))"

subsection \<open>The shape of a token\<close>

text \<open>
  The checkers \<^verbatim>\<open>createCheckers\<close> builds from the two \<^verbatim>\<open>iface\<close> declarations. The checker
  of an interface wants a value whose \<^verbatim>\<open>typeof\<close> is \<^verbatim>\<open>"object"\<close> and that is not null;
  a property that reads as \<^verbatim>\<open>undefined\<close> fails when it is required and passes when it is
  optional; a property that is there must pass the checker of its type. Properties that
  the interface does not name are allowed (\<^verbatim>\<open>test\<close>, not \<^verbatim>\<open>strictTest\<close>).
\<close>

definition typeof_object :: "json \<Rightarrow> bool" where
  "typeof_object v = (case v of JArray vs \<Rightarrow> True | JObject ms \<Rightarrow> True | _ \<Rightarrow> False)"

definition get_prop :: "json \<Rightarrow> js_string \<Rightarrow> json option" where
  "get_prop v name = (case v of JObject ms \<Rightarrow> Map_get ms name | _ \<Rightarrow> None)"

definition typeof_string :: "json \<Rightarrow> bool" where
  "typeof_string v = (case v of JString s \<Rightarrow> True | _ \<Rightarrow> False)"

definition required_string :: "json \<Rightarrow> js_string \<Rightarrow> bool" where
  "required_string v name = (case get_prop v name of None \<Rightarrow> False | Some p \<Rightarrow> typeof_string p)"

definition ChoiceOptionsType_test :: "json \<Rightarrow> bool" where
  "ChoiceOptionsType_test v =
     (typeof_object v \<and> required_string v (str ''textColor'') \<and> required_string v (str ''fillColor''))"

definition ChoiceItemChecker_test :: "json \<Rightarrow> bool" where
  "ChoiceItemChecker_test v =
     (typeof_object v \<and> required_string v (str ''label'')
      \<and> (case get_prop v (str ''options'') of None \<Rightarrow> True | Some p \<Rightarrow> ChoiceOptionsType_test p))"

text \<open>
  A value that passed the checker is used as a \<^verbatim>\<open>ChoiceItem\<close> (the type guard
  \<^verbatim>\<open>t is ChoiceItem\<close>): these are the fields the editor reads from it.
\<close>

definition string_prop :: "json \<Rightarrow> js_string \<Rightarrow> js_string" where
  "string_prop v name = (case get_prop v name of Some (JString s) \<Rightarrow> s | _ \<Rightarrow> [])"

definition as_IChoiceOptions :: "json \<Rightarrow> code_unit IChoiceOptions" where
  "as_IChoiceOptions v =
     \<lparr>textColor = string_prop v (str ''textColor''), fillColor = string_prop v (str ''fillColor'')\<rparr>"

definition as_ChoiceItem :: "json \<Rightarrow> code_unit ChoiceItem" where
  "as_ChoiceItem v =
     \<lparr>label = string_prop v (str ''label''),
      options = map_option as_IChoiceOptions (get_prop v (str ''options''))\<rparr>"

text \<open>
  What \<^verbatim>\<open>JSON.stringify\<close> sees of a \<^verbatim>\<open>ChoiceItem\<close>: its own properties \<^verbatim>\<open>label\<close> and
  \<^verbatim>\<open>options\<close> in the order the constructor creates them, the latter left out when it is
  \<^verbatim>\<open>undefined\<close>. The options object comes from outside the editor, and its two properties
  are written in the order in which that object got them, which the record does not tell:
  the order is a parameter.
\<close>

datatype property_order = TextColor_first | FillColor_first

definition IChoiceOptions_json :: "property_order \<Rightarrow> code_unit IChoiceOptions \<Rightarrow> json" where
  "IChoiceOptions_json order opts =
     (case order of
        TextColor_first \<Rightarrow>
          JObject [(str ''textColor'', JString (textColor opts)),
                   (str ''fillColor'', JString (fillColor opts))]
      | FillColor_first \<Rightarrow>
          JObject [(str ''fillColor'', JString (fillColor opts)),
                   (str ''textColor'', JString (textColor opts))])"

definition ChoiceItem_json :: "property_order \<Rightarrow> code_unit ChoiceItem \<Rightarrow> json" where
  "ChoiceItem_json order t =
     JObject ((str ''label'', JString (label t))
              # (case options t of
                   None \<Rightarrow> []
                 | Some opts \<Rightarrow> [(str ''options'', IChoiceOptions_json order opts)]))"

subsection \<open>Copy and paste of tokens\<close>

text \<open>
  The \<^verbatim>\<open>tokensToClipboard\<close> function the editor gives to its \<^verbatim>\<open>TokenField\<close>. The first
  argument tells, for the token at each index, the order of the properties of its options
  object.
\<close>

definition tokensToClipboard ::
  "(nat \<Rightarrow> property_order) \<Rightarrow> code_unit ChoiceItem list \<Rightarrow> DataTransfer \<Rightarrow> DataTransfer"
where
  "tokensToClipboard order tokens clipboard =
     setData
       (setData clipboard ''application/json''
          (JSON_stringify
             (JArray (map (\<lambda>(i, t). ChoiceItem_json (order i) t) (enumerate 0 tokens)))))
       ''text/plain'' (join (map label tokens) [NEWLINE])"

definition isJSON :: "js_string \<Rightarrow> bool" where
  "isJSON s = (case JSON_parse s of None \<Rightarrow> False | Some v \<Rightarrow> True)"

text \<open>
  \<^verbatim>\<open>isJSON\<close> catches the \<^verbatim>\<open>SyntaxError\<close> of \<^verbatim>\<open>JSON.parse\<close>; the call of \<^verbatim>\<open>JSON.parse\<close>
  in \<^verbatim>\<open>clipboardToChoices\<close> is not in a \<^verbatim>\<open>try\<close>, and an error it threw would leave the
  function.
\<close>

datatype error = SyntaxError

definition Array_isArray :: "json \<Rightarrow> bool" where
  "Array_isArray v = (case v of JArray vs \<Rightarrow> True | _ \<Rightarrow> False)"

definition array_elements :: "json \<Rightarrow> json list" where
  "array_elements v = (case v of JArray vs \<Rightarrow> vs | _ \<Rightarrow> [])"

text \<open>The second half of \<^verbatim>\<open>clipboardToChoices\<close>: the choices of the plain text.\<close>

definition text_choices :: "DataTransfer \<Rightarrow> code_unit ChoiceItem list" where
  "text_choices clipboard =
     (let maybeText = getData clipboard ''text/plain''
      in if maybeText \<noteq> []
         then map (\<lambda>l. new_ChoiceItem l None) (split maybeText NEWLINE)
         else [])"

definition clipboardToChoices :: "DataTransfer \<Rightarrow> error + code_unit ChoiceItem list" where
  "clipboardToChoices clipboard =
     (let maybeTokens = getData clipboard ''application/json''
      in if maybeTokens \<noteq> [] \<and> isJSON maybeTokens then
           (case JSON_parse maybeTokens of
              None \<Rightarrow> Inl SyntaxError
            | Some tokens \<Rightarrow>
                if Array_isArray tokens
                   \<and> list_all ChoiceItemChecker_test (array_elements tokens)
                then Inr (map as_ChoiceItem (array_elements tokens))
                else Inr (text_choices clipboard))
         else Inr (text_choices clipboard))"


subsection \<open>Events\<close>

text \<open>
  The handlers \<^verbatim>\<open>buildDom\<close> attaches. The view branch has the click on the list box and
  the Edit button, both calling \<^verbatim>\<open>_startEditing\<close>; the edit branch has the Save button
  and the Enter key calling \<^verbatim>\<open>_save\<close>, and the Cancel button and the Escape key calling
  \<^verbatim>\<open>_cancel\<close>. An event of a branch that is not displayed reaches no handler.
  \<open>Session_edit\<close> is the user changing the tokens or the text in the token field;
  \<open>Values_changed\<close> and \<open>Options_changed\<close> are writes to the two observables from
  outside the editor.
\<close>

datatype 'c event =
    Click_edit
  | Click_save
  | Key_Enter
  | Click_cancel
  | Key_Escape
  | Session_edit "'c TokenField"
  | Values_changed "'c list list"
  | Options_changed "'c ChoiceOptionsByName"

fun dispatch :: "'c onSave_callback \<Rightarrow> 'c event \<Rightarrow> 'c ChoiceListEntry \<Rightarrow> 'c ChoiceListEntry" where
  "dispatch onSave Click_edit s = (if isEditing s then s else startEditing s)"
| "dispatch onSave Click_save s = (if isEditing s then save onSave s else s)"
| "dispatch onSave Key_Enter s = (if isEditing s then save onSave s else s)"
| "dispatch onSave Click_cancel s = (if isEditing s then cancel s else s)"
| "dispatch onSave Key_Escape s = (if isEditing s then cancel s else s)"
| "dispatch onSave (Session_edit tokenField) s =
     (if isEditing s then s\<lparr>tokenFieldHolder := Some tokenField\<rparr> else s)"
| "dispatch onSave (Values_changed v) s = values_changed v s"
| "dispatch onSave (Options_changed m) s = options_changed m s"

definition run :: "'c onSave_callback \<Rightarrow> 'c event list \<Rightarrow> 'c ChoiceListEntry \<Rightarrow> 'c ChoiceListEntry" where
  "run onSave evs s = fold (dispatch onSave) evs s"

text \<open>
  The events of one edit session: each of them is handled while the editor is in edit
  mode (the last one may end the session).
\<close>

fun in_session :: "'c onSave_callback \<Rightarrow> 'c event list \<Rightarrow> 'c ChoiceListEntry \<Rightarrow> bool" where
  "in_session onSave [] s = True"
| "in_session onSave (e # evs) s = (isEditing s \<and> in_session onSave evs (dispatch onSave e s))"

text \<open>A callback that writes the values observable before it returns, whatever it is given.\<close>

definition writes_values :: "'c onSave_callback \<Rightarrow> bool" where
  "writes_values onSave = (\<forall>vs m. \<exists>v. SetValues v \<in> set (onSave vs m))"

section \<open>Reference definitions, in the words of the specification\<close>

text \<open>
  The pending text as a list of tokens: nothing when the text is empty, otherwise one
  token without colour options.
\<close>

definition spec_pending :: "'c list \<Rightarrow> 'c ChoiceItem list" where
  "spec_pending text = (if text = [] then [] else [\<lparr>label = text, options = None\<rparr>])"

text \<open>
  A deduplication by label of \<open>ts\<close>: tokens of \<open>ts\<close> in their order, one for each
  label of \<open>ts\<close>.
\<close>

definition spec_dedup :: "'c ChoiceItem list \<Rightarrow> 'c ChoiceItem list \<Rightarrow> bool" where
  "spec_dedup ts surviving =
     (subseq surviving ts \<and> distinct (map label surviving)
      \<and> set (map label surviving) = set (map label ts))"

text \<open>The mapping with one entry for each token that carries options, and no other.\<close>

fun spec_mapping :: "'c ChoiceItem list \<Rightarrow> 'c ChoiceOptionsByName" where
  "spec_mapping [] = []"
| "spec_mapping (t # ts) =
     (case options t of
        None \<Rightarrow> spec_mapping ts
      | Some opts \<Rightarrow> (label t, opts) # spec_mapping ts)"

text \<open>
  The rows of view mode: a row saying that no choice is configured when there is no value,
  a row for each value when there are at most \<open>maxRows\<close>, and otherwise rows for the
  first \<open>maxRows - 1\<close> values and a row counting the values not shown.
\<close>

definition spec_view_rows :: "int \<Rightarrow> string list \<Rightarrow> char ChoiceOptionsByName \<Rightarrow> row list" where
  "spec_view_rows maxRows vs choiceOptions =
     (let n = int (length vs);
          value_row = (\<lambda>val. Row_choice (getFillColor (Map_get choiceOptions val)) val)
      in if n = 0 then [Row_text ''No choices configured'']
         else if n \<le> maxRows then map value_row vs
         else map value_row (take (nat (maxRows - 1)) vs)
              @ [Row_text (''+'' @ Number_toString (n - (maxRows - 1)) @ '' more'')])"


subsection \<open>The clipboard, in the words of the specification\<close>

text \<open>
  The token a JSON value denotes: its label is the string of the property \<^verbatim>\<open>label\<close>, and
  its options are the two colours of the property \<^verbatim>\<open>options\<close>, or none when the value
  has no such property.
\<close>

definition denotes_token :: "json \<Rightarrow> code_unit ChoiceItem \<Rightarrow> bool" where
  "denotes_token v t =
     (get_prop v (str ''label'') = Some (JString (label t))
      \<and> (case options t of
            None \<Rightarrow> get_prop v (str ''options'') = None
          | Some opts \<Rightarrow>
              (case get_prop v (str ''options'') of
                 None \<Rightarrow> False
               | Some p \<Rightarrow>
                   get_prop p (str ''textColor'') = Some (JString (textColor opts))
                   \<and> get_prop p (str ''fillColor'') = Some (JString (fillColor opts)))))"

text \<open>
  The shape of a token: an object whose \<^verbatim>\<open>label\<close> is a string and whose \<^verbatim>\<open>options\<close>, if
  present, is an object whose \<^verbatim>\<open>textColor\<close> and \<^verbatim>\<open>fillColor\<close> are strings.
\<close>

definition spec_options_shape :: "json \<Rightarrow> bool" where
  "spec_options_shape p =
     (case p of
        JObject ps \<Rightarrow>
          (case Map_get ps (str ''textColor'') of
             Some (JString tc) \<Rightarrow>
               (case Map_get ps (str ''fillColor'') of Some (JString fc) \<Rightarrow> True | _ \<Rightarrow> False)
           | _ \<Rightarrow> False)
      | _ \<Rightarrow> False)"

definition spec_token_shape :: "json \<Rightarrow> bool" where
  "spec_token_shape v =
     (case v of
        JObject ms \<Rightarrow>
          (case Map_get ms (str ''label'') of
             Some (JString l) \<Rightarrow>
               (case Map_get ms (str ''options'') of None \<Rightarrow> True | Some p \<Rightarrow> spec_options_shape p)
           | _ \<Rightarrow> False)
      | _ \<Rightarrow> False)"

text \<open>A list in which every element has the shape of a token.\<close>

definition spec_token_list :: "json \<Rightarrow> bool" where
  "spec_token_list v = (case v of JArray ts \<Rightarrow> list_all spec_token_shape ts | _ \<Rightarrow> False)"

text \<open>
  The structured field is of no use: it is absent, or it is not valid JSON, or it parses
  to a value that is not a list of tokens.
\<close>

definition spec_unusable :: "DataTransfer \<Rightarrow> bool" where
  "spec_unusable clipboard =
     (let structured = getData clipboard ''application/json''
      in structured = []
         \<or> (case JSON_parse structured of None \<Rightarrow> True | Some v \<Rightarrow> \<not> spec_token_list v))"

text \<open>One token for each line of the text, the line as its label, and no options.\<close>

definition spec_line_tokens :: "js_string \<Rightarrow> code_unit ChoiceItem list" where
  "spec_line_tokens text = map (\<lambda>l. \<lparr>label = l, options = None\<rparr>) (split text NEWLINE)"


section \<open>Example states\<close>

text \<open>The editor as constructed, in view mode, holding the given values and options.\<close>

definition new_ChoiceListEntry :: "'c list list \<Rightarrow> 'c ChoiceOptionsByName \<Rightarrow> 'c ChoiceListEntry" where
  "new_ChoiceListEntry vs m =
     \<lparr>isEditing = False, tokenFieldHolder = None, valuesObs = vs,
      choiceOptionsByName = m, onSave_calls = []\<rparr>"

definition red :: "char IChoiceOptions" where
  "red = \<lparr>textColor = ''#000'', fillColor = ''#f00''\<rparr>"

definition green :: "char IChoiceOptions" where
  "green = \<lparr>textColor = ''#000'', fillColor = ''#0f0''\<rparr>"

text \<open>A host that stores what it is given in both observables, and one that writes nothing
  before it returns (it persists the change later).\<close>

definition onSave_store :: "'c onSave_callback" where
  "onSave_store vs m = [SetValues vs, SetOptions m]"

definition onSave_later :: "'c onSave_callback" where
  "onSave_later vs m = []"

text \<open>Two editors in edit mode: one whose session differs from the held values, and one
  whose session holds the held values and options, the map having another insertion order.\<close>

definition ex_changed :: "char ChoiceListEntry" where
  "ex_changed =
     \<lparr>isEditing = True,
      tokenFieldHolder =
        Some \<lparr>tokensObs = [\<lparr>label = ''A'', options = Some red\<rparr>], getTextInputValue = ''B''\<rparr>,
      valuesObs = [''A''], choiceOptionsByName = [], onSave_calls = []\<rparr>"

definition ex_reordered :: "char ChoiceListEntry" where
  "ex_reordered =
     \<lparr>isEditing = True,
      tokenFieldHolder =
        Some \<lparr>tokensObs = [\<lparr>label = ''B'', options = Some green\<rparr>,
                            \<lparr>label = ''A'', options = Some red\<rparr>],
              getTextInputValue = []\<rparr>,
      valuesObs = [''B'', ''A''], choiceOptionsByName = [(''A'', red), (''B'', green)],
      onSave_calls = []\<rparr>"

text \<open>
  Clipboards: the token X with colours as JSON beside some other text; a structured field
  that is not JSON beside three lines of text; a list whose element has a number as label
  beside one line of text; an object that is not a list beside an empty text; a token
  whose label is the character U+20AC, written as an escape and written as it is.
\<close>

definition clip_json :: DataTransfer where
  \<open>clip_json =
     [(''application/json'',
       str ''[{"label":"X","options":{"fillColor":"#fff","textColor":"#000"}}]''),
      (''text/plain'', str ''something else'')]\<close>

definition clip_lines :: DataTransfer where
  \<open>clip_lines =
     [(''application/json'', str ''{"label":''),
      (''text/plain'', str ''X'' @ [NEWLINE] @ str ''Y'' @ [NEWLINE] @ str ''Z'')]\<close>

definition clip_wrong_type :: DataTransfer where
  \<open>clip_wrong_type =
     [(''application/json'', str ''[{"label":1}]''), (''text/plain'', str ''X'')]\<close>

definition clip_empty_text :: DataTransfer where
  \<open>clip_empty_text = [(''application/json'', str ''{"label":"X"}''), (''text/plain'', [])]\<close>

definition clip_escape :: DataTransfer where
  \<open>clip_escape =
     [(''application/json'', str ''[{"label":"'' @ [BACKSLASH] @ str ''u20ac"}]'')]\<close>

definition clip_euro :: DataTransfer where
  \<open>clip_euro = [(''application/json'', str ''[{"label":"'' @ [0x20AC] @ str ''"}]'')]\<close>

text \<open>
  Tokens for the clipboard: a label with a quote, a line break, a character outside the
  Basic Multilingual Plane (two surrogates) and a trailing surrogate on its own, with
  colours; and a label of one character above U+00FF without colours.
\<close>

definition ex_tokens :: "code_unit ChoiceItem list" where
  \<open>ex_tokens =
     [\<lparr>label = str ''a"b'' @ [NEWLINE, 0xD83D, 0xDE00, 0xDC00],
       options = Some \<lparr>textColor = str ''#000'', fillColor = str ''#f00''\<rparr>\<rparr>,
      \<lparr>label = [0x20AC], options = None\<rparr>]\<close>

definition ex_order :: "nat \<Rightarrow> property_order" where
  "ex_order i = (if i = 0 then TextColor_first else FillColor_first)"

section \<open>Auxiliary definitions for the proofs\<close>

text \<open>
  The values \<open>JSON_stringify\<close> is read back from: they hold no number (a number is
  written as its own text, which the model does not inspect), and the names of an object
  are distinct.
\<close>

fun printable :: "json \<Rightarrow> bool"
  and printable_elements :: "json list \<Rightarrow> bool"
  and printable_members :: "(js_string \<times> json) list \<Rightarrow> bool"
where
  "printable JNull = True"
| "printable (JBool b) = True"
| "printable (JNumber num) = False"
| "printable (JString s) = True"
| "printable (JArray vs) = printable_elements vs"
| "printable (JObject ms) = printable_members ms"
| "printable_elements [] = True"
| "printable_elements (v # vs) = (printable v \<and> printable_elements vs)"
| "printable_members [] = True"
| "printable_members ((k, v) # ms) = (printable v \<and> k \<notin> fst ` set ms \<and> printable_members ms)"

text \<open>The number of nested calls the parser makes on the text of a value.\<close>

fun calls :: "json \<Rightarrow> nat"
  and calls_elements :: "json list \<Rightarrow> nat"
  and calls_members :: "(js_string \<times> json) list \<Rightarrow> nat"
where
  "calls JNull = 1"
| "calls (JBool b) = 1"
| "calls (JNumber num) = 1"
| "calls (JString s) = 1"
| "calls (JArray vs) = Suc (calls_elements vs)"
| "calls (JObject ms) = Suc (calls_members ms)"
| "calls_elements [] = 0"
| "calls_elements (v # vs) = Suc (calls v + calls_elements vs)"
| "calls_members [] = 0"
| "calls_members ((k, v) # ms) = Suc (calls v + calls_members ms)"

text \<open>
  The bodies of the three parsing functions, with the recursive calls as parameters: a call
  with the bound \<open>Suc n\<close> is the body applied to the functions with the bound \<open>n\<close>.
\<close>

definition array_body ::
  "(js_string \<Rightarrow> (json list \<times> js_string) option) \<Rightarrow> js_string \<Rightarrow> (json \<times> js_string) option" where
  "array_body pe cs =
     (case skip_ws cs of
        [] \<Rightarrow> None
      | d # r \<Rightarrow>
          if d = U (CHR '']'') then Some (JArray [], r)
          else (case pe cs of None \<Rightarrow> None | Some (vs, r') \<Rightarrow> Some (JArray vs, r')))"

definition object_body ::
  "(js_string \<Rightarrow> ((js_string \<times> json) list \<times> js_string) option) \<Rightarrow> js_string \<Rightarrow> (json \<times> js_string) option" where
  "object_body pm cs =
     (case skip_ws cs of
        [] \<Rightarrow> None
      | d # r \<Rightarrow>
          if d = U (CHR ''}'') then Some (JObject [], r)
          else (case pm cs of
                  None \<Rightarrow> None
                | Some (ms, r') \<Rightarrow> Some (JObject (object_of_members ms), r')))"

definition scalar_body :: "js_string \<Rightarrow> (json \<times> js_string) option" where
  "scalar_body t =
     (if take 4 t = str ''true'' then Some (JBool True, drop 4 t)
      else if take 5 t = str ''false'' then Some (JBool False, drop 5 t)
      else if take 4 t = str ''null'' then Some (JNull, drop 4 t)
      else (case parse_number t of None \<Rightarrow> None | Some (num, r) \<Rightarrow> Some (JNumber num, r)))"

definition string_body :: "js_string \<Rightarrow> (json \<times> js_string) option" where
  "string_body cs = (case parse_chars cs of None \<Rightarrow> None | Some (chars, r) \<Rightarrow> Some (JString chars, r))"

definition value_body ::
  "(js_string \<Rightarrow> (json list \<times> js_string) option) \<Rightarrow> (js_string \<Rightarrow> ((js_string \<times> json) list \<times> js_string) option)
   \<Rightarrow> js_string \<Rightarrow> (json \<times> js_string) option" where
  "value_body pe pm s =
     (case skip_ws s of
        [] \<Rightarrow> None
      | c # cs \<Rightarrow>
          if c = DQUOTE then string_body cs
          else if c = U (CHR ''['') then array_body pe cs
          else if c = U (CHR ''{'') then object_body pm cs
          else scalar_body (c # cs))"

definition elements_tail ::
  "(js_string \<Rightarrow> (json list \<times> js_string) option) \<Rightarrow> json \<Rightarrow> js_string \<Rightarrow> (json list \<times> js_string) option" where
  "elements_tail pe v r =
     (case skip_ws r of
        [] \<Rightarrow> None
      | c # r' \<Rightarrow>
          if c = U (CHR '','') then
            (case pe r' of None \<Rightarrow> None | Some (vs, r'') \<Rightarrow> Some (v # vs, r''))
          else if c = U (CHR '']'') then Some ([v], r')
          else None)"

definition elements_body ::
  "(js_string \<Rightarrow> (json \<times> js_string) option) \<Rightarrow> (js_string \<Rightarrow> (json list \<times> js_string) option)
   \<Rightarrow> js_string \<Rightarrow> (json list \<times> js_string) option" where
  "elements_body pv pe s =
     (case pv s of None \<Rightarrow> None | Some (v, r) \<Rightarrow> elements_tail pe v r)"

definition members_tail ::
  "(js_string \<Rightarrow> ((js_string \<times> json) list \<times> js_string) option) \<Rightarrow> js_string \<Rightarrow> json \<Rightarrow> js_string
   \<Rightarrow> ((js_string \<times> json) list \<times> js_string) option" where
  "members_tail pm k v r3 =
     (case skip_ws r3 of
        [] \<Rightarrow> None
      | c # r4 \<Rightarrow>
          if c = U (CHR '','') then
            (case pm r4 of None \<Rightarrow> None | Some (ms, r5) \<Rightarrow> Some ((k, v) # ms, r5))
          else if c = U (CHR ''}'') then Some ([(k, v)], r4)
          else None)"

definition member_value ::
  "(js_string \<Rightarrow> (json \<times> js_string) option) \<Rightarrow> (js_string \<Rightarrow> ((js_string \<times> json) list \<times> js_string) option)
   \<Rightarrow> js_string \<Rightarrow> js_string \<Rightarrow> ((js_string \<times> json) list \<times> js_string) option" where
  "member_value pv pm k r1 =
     (case skip_ws r1 of
        [] \<Rightarrow> None
      | colon # r2 \<Rightarrow>
          if colon \<noteq> U (CHR '':'') then None
          else (case pv r2 of None \<Rightarrow> None | Some (v, r3) \<Rightarrow> members_tail pm k v r3))"

definition members_body ::
  "(js_string \<Rightarrow> (json \<times> js_string) option) \<Rightarrow> (js_string \<Rightarrow> ((js_string \<times> json) list \<times> js_string) option)
   \<Rightarrow> js_string \<Rightarrow> ((js_string \<times> json) list \<times> js_string) option" where
  "members_body pv pm s =
     (case skip_ws s of
        [] \<Rightarrow> None
      | q # r \<Rightarrow>
          if q \<noteq> DQUOTE then None
          else (case parse_chars r of None \<Rightarrow> None | Some (k, r1) \<Rightarrow> member_value pv pm k r1))"

text \<open>
  A parser consumes when what it leaves is shorter than what it was given; a parser extends
  another when it returns every result the other returns.
\<close>

definition consumes :: "(js_string \<Rightarrow> ('a \<times> js_string) option) \<Rightarrow> bool" where
  "consumes p = (\<forall>t x r. p t = Some (x, r) \<longrightarrow> length r < length t)"

definition extends :: "(js_string \<Rightarrow> 'a option) \<Rightarrow> (js_string \<Rightarrow> 'a option) \<Rightarrow> bool" where
  "extends p p' = (\<forall>t x. p t = Some x \<longrightarrow> p' t = Some x)"



section \<open>Properties of the library functions\<close>

subsection \<open>\<^verbatim>\<open>uniqBy\<close> keeps the first element of each key\<close>

lemma baseUniq_result: "baseUniq f xs seen result = result @ baseUniq f xs seen []"
proof (induction xs arbitrary: seen result)
  case Nil
  show ?case by simp
next
  case (Cons x xs)
  show ?case
    using Cons.IH [of seen result] Cons.IH [of "seen @ [f x]" "result @ [x]"]
      Cons.IH [of "seen @ [f x]" "[x]"]
    by simp
qed

lemma baseUniq_seen_set:
  "set seen = set seen' \<Longrightarrow> baseUniq f xs seen result = baseUniq f xs seen' result"
proof (induction xs arbitrary: seen seen' result)
  case Nil
  show ?case by simp
next
  case (Cons x xs)
  have "set (seen @ [f x]) = set (seen' @ [f x])"
    using Cons.prems by simp
  then have "baseUniq f xs (seen @ [f x]) (result @ [x]) = baseUniq f xs (seen' @ [f x]) (result @ [x])"
    by (rule Cons.IH)
  moreover have "baseUniq f xs seen result = baseUniq f xs seen' result"
    using Cons.prems by (rule Cons.IH)
  ultimately show ?case
    using Cons.prems by simp
qed

lemma baseUniq_filter_gen:
  "baseUniq f xs (seen @ seen') [] = baseUniq f (filter (\<lambda>x. f x \<notin> set seen) xs) seen' []"
proof (induction xs arbitrary: seen')
  case Nil
  show ?case by simp
next
  case (Cons x xs)
  have "baseUniq f xs (seen @ seen' @ [f x]) [x]
        = baseUniq f (filter (\<lambda>x. f x \<notin> set seen) xs) (seen' @ [f x]) [x]"
    using Cons.IH [of "seen' @ [f x]"]
      baseUniq_result [of f xs "seen @ seen' @ [f x]" "[x]"]
      baseUniq_result [of f "filter (\<lambda>x. f x \<notin> set seen) xs" "seen' @ [f x]" "[x]"]
    by simp
  then show ?case
    using Cons.IH [of seen'] by simp
qed

lemma baseUniq_filter:
  "baseUniq f xs seen [] = baseUniq f (filter (\<lambda>x. f x \<notin> set seen) xs) [] []"
  using baseUniq_filter_gen [of f xs seen "[]"] by simp

lemma baseUniq_append:
  "baseUniq f (xs @ ys) seen [] = baseUniq f xs seen [] @ baseUniq f ys (seen @ map f xs) []"
proof (induction xs arbitrary: seen)
  case Nil
  show ?case by simp
next
  case (Cons x xs)
  show ?case
  proof (cases "f x \<in> set seen")
    case True
    then have "set (seen @ map f xs) = set (seen @ map f (x # xs))" by auto
    then show ?thesis
      using True Cons.IH [of seen] baseUniq_seen_set by fastforce
  next
    case False
    then show ?thesis
      using Cons.IH [of "seen @ [f x]"]
        baseUniq_result [of f "xs @ ys" "seen @ [f x]" "[x]"]
        baseUniq_result [of f "xs" "seen @ [f x]" "[x]"]
      by simp
  qed
qed

lemma baseUniq_set:
  "set (map f (baseUniq f xs seen [])) = f ` set xs - set seen"
proof (induction xs arbitrary: seen)
  case Nil
  show ?case by simp
next
  case (Cons x xs)
  show ?case
    using Cons.IH [of seen] Cons.IH [of "seen @ [f x]"]
      baseUniq_result [of f xs "seen @ [f x]" "[x]"]
    by auto
qed

lemma baseUniq_distinct:
  "distinct (map f (baseUniq f xs seen []))"
proof (induction xs arbitrary: seen)
  case Nil
  show ?case by simp
next
  case (Cons x xs)
  show ?case
    using Cons.IH [of seen] Cons.IH [of "seen @ [f x]"]
      baseUniq_result [of f xs "seen @ [f x]" "[x]"]
      baseUniq_set [of f xs "seen @ [f x]"]
    by auto
qed

lemma baseUniq_subseq:
  "subseq (baseUniq f xs seen []) xs"
proof (induction xs arbitrary: seen)
  case Nil
  show ?case by simp
next
  case (Cons x xs)
  show ?case
    using Cons.IH [of seen] Cons.IH [of "seen @ [f x]"]
      baseUniq_result [of f xs "seen @ [f x]" "[x]"]
    by auto
qed

lemma baseUniq_id:
  "distinct (map f xs) \<Longrightarrow> set (map f xs) \<inter> set seen = {} \<Longrightarrow> baseUniq f xs seen [] = xs"
proof (induction xs arbitrary: seen)
  case Nil
  show ?case by simp
next
  case (Cons x xs)
  then show ?case
    using Cons.IH [of "seen @ [f x]"]
      baseUniq_result [of f xs "seen @ [f x]" "[x]"]
    by auto
qed

subsection \<open>The options mapping built by \<^verbatim>\<open>_save\<close>\<close>

lemma Map_set_fresh: "k \<notin> fst ` set m \<Longrightarrow> Map_set m k v = m @ [(k, v)]"
  by (induction m) auto

lemma options_copy: "\<lparr>textColor = textColor opts, fillColor = fillColor opts\<rparr> = opts"
  by simp

lemma newOptions_set_None: "options t = None \<Longrightarrow> newOptions_set t m = m"
  by (simp add: newOptions_set_def)

lemma newOptions_set_Some:
  "options t = Some opts \<Longrightarrow> newOptions_set t m = Map_set m (label t) opts"
  by (simp add: newOptions_set_def options_copy)

lemma count_list_distinct: "distinct xs \<Longrightarrow> x \<in> set xs \<Longrightarrow> count_list xs x = 1"
  by (induction xs) auto

lemma spec_mapping_keys: "fst ` set (spec_mapping ts) \<subseteq> label ` set ts"
  by (induction ts) (auto split: option.splits)

lemma fold_newOptions_set:
  "distinct (map label ts) \<Longrightarrow> label ` set ts \<inter> fst ` set m = {} \<Longrightarrow>
   fold newOptions_set ts m = m @ spec_mapping ts"
proof (induction ts arbitrary: m)
  case Nil
  show ?case by simp
next
  case (Cons t ts)
  show ?case
  proof (cases "options t")
    case None
    then show ?thesis
      using Cons.IH [of m] Cons.prems by (simp add: newOptions_set_None)
  next
    case (Some opts)
    have fresh: "label t \<notin> fst ` set m"
      using Cons.prems by auto
    have "label ` set ts \<inter> fst ` set (m @ [(label t, opts)]) = {}"
      using Cons.prems by auto
    then have "fold newOptions_set ts (m @ [(label t, opts)]) = (m @ [(label t, opts)]) @ spec_mapping ts"
      using Cons.prems by (intro Cons.IH) simp_all
    then show ?thesis
      using Some fresh by (simp add: newOptions_set_Some Map_set_fresh)
  qed
qed

lemma Map_get_spec_mapping_notin:
  "l \<notin> label ` set ts \<Longrightarrow> Map_get (spec_mapping ts) l = None"
  by (induction ts) (auto split: option.splits)

lemma Map_get_spec_mapping:
  "distinct (map label ts) \<Longrightarrow> t \<in> set ts \<Longrightarrow> Map_get (spec_mapping ts) (label t) = options t"
proof (induction ts)
  case Nil
  then show ?case by simp
next
  case (Cons u ts)
  show ?case
  proof (cases "t = u")
    case True
    then show ?thesis
      using Cons.prems Map_get_spec_mapping_notin [of "label u" ts]
      by (auto split: option.splits)
  next
    case False
    then have "t \<in> set ts" "label u \<noteq> label t"
      using Cons.prems by auto
    then show ?thesis
      using Cons.IH Cons.prems by (auto split: option.splits)
  qed
qed

lemma distinct_keys_spec_mapping:
  "distinct (map label ts) \<Longrightarrow> distinct (map fst (spec_mapping ts))"
proof (induction ts)
  case Nil
  show ?case by simp
next
  case (Cons t ts)
  then show ?case
    using spec_mapping_keys [of ts] by (auto split: option.splits)
qed

lemma save_candidate_eq:
  "save_candidate ts = (map label (uniqBy ts label), spec_mapping (uniqBy ts label))"
  using fold_newOptions_set [of "uniqBy ts label" "[]"] baseUniq_distinct [of label ts "[]"]
  by (simp add: save_candidate_def uniqBy_def Let_def)

lemma save_tokens_eq:
  "save_tokens tf = tokensObs tf @ spec_pending (getTextInputValue tf)"
  by (simp add: save_tokens_def spec_pending_def new_ChoiceItem_def)

lemma uniqBy_dedup: "spec_dedup ts (uniqBy ts label)"
  using baseUniq_subseq [of label ts "[]"] baseUniq_distinct [of label ts "[]"]
    baseUniq_set [of label ts "[]"]
  by (simp add: spec_dedup_def uniqBy_def)

lemma uniqBy_first:
  assumes "label t \<notin> label ` set pre"
  shows "uniqBy (pre @ t # post) label
         = uniqBy pre label @ t # uniqBy (filter (\<lambda>u. label u \<notin> set (map label (pre @ [t]))) post) label"
proof -
  have "baseUniq label (t # post) ([] @ map label pre) [] 
        = t # baseUniq label post (map label pre @ [label t]) []"
    using assms baseUniq_result [of label post "map label pre @ [label t]" "[t]"] by simp
  moreover have "baseUniq label post (map label pre @ [label t]) []
        = baseUniq label (filter (\<lambda>u. label u \<notin> set (map label (pre @ [t]))) post) [] []"
    using baseUniq_filter [of label post "map label pre @ [label t]"] by simp
  ultimately show ?thesis
    using baseUniq_append [of label pre "t # post" "[]"] by (simp add: uniqBy_def)
qed

subsection \<open>\<^verbatim>\<open>isEqual\<close> on maps compares the entries whatever their order\<close>

lemma Map_get_map_of: "Map_get m k = map_of m k"
  by (induction m) auto

lemma Map_get_None_iff: "Map_get m k = None \<longleftrightarrow> k \<notin> fst ` set m"
  by (simp add: Map_get_map_of map_of_eq_None_iff)

lemma equalArrays_unordered_mset:
  "(length a = length b \<and> equalArrays_unordered a b) \<longleftrightarrow> mset a = mset b"
proof (induction a arbitrary: b)
  case Nil
  show ?case by auto
next
  case (Cons x a)
  show ?case
  proof (cases "x \<in> set b")
    case False
    then have "mset (x # a) \<noteq> mset b"
      by (metis list.set_intros(1) mset_eq_setD)
    with False show ?thesis by simp
  next
    case True
    then have len: "length b = Suc (length (remove1 x b))"
      by (simp add: length_remove1) (metis One_nat_def Suc_pred length_pos_if_in_set)
    have "mset (x # a) = mset b \<longleftrightarrow> mset a = mset (remove1 x b)"
      using True by (metis add_mset_remove_trivial insert_DiffM mset.simps(2) mset_remove1 set_mset_mset)
    then show ?thesis
      using True len Cons.IH [of "remove1 x b"] by auto
  qed
qed

lemma isEqual_Map_iff:
  assumes "distinct (map fst a)" "distinct (map fst b)"
  shows "isEqual_Map a b \<longleftrightarrow> Map_get a = Map_get b"
proof -
  have da: "distinct a" and db: "distinct b"
    using assms by (simp_all add: distinct_map)
  have "isEqual_Map a b \<longleftrightarrow> mset a = mset b"
    using equalArrays_unordered_mset [of a b] by (simp add: isEqual_Map_def)
  also have "\<dots> \<longleftrightarrow> set a = set b"
    using da db by (metis set_eq_iff_mset_eq_distinct)
  also have "\<dots> \<longleftrightarrow> map_of a = map_of b"
    using assms by (simp add: map_of_inject_set)
  also have "\<dots> \<longleftrightarrow> Map_get a = Map_get b"
    by (simp add: Map_get_map_of fun_eq_iff)
  finally show ?thesis .
qed

section \<open>Properties of the editor\<close>

lemma cancel_simps [simp]:
  "isEditing (cancel s) = False"
  "onSave_calls (cancel s) = onSave_calls s"
  "valuesObs (cancel s) = valuesObs s"
  "choiceOptionsByName (cancel s) = choiceOptionsByName s"
  "tokenFieldHolder (cancel s) = tokenFieldHolder s"
  by (simp_all add: cancel_def isEditing_set_def buildDom_mode_def)

lemma host_write_apply_calls [simp]:
  "onSave_calls (host_write_apply w s) = onSave_calls s"
  by (cases w) (simp_all add: values_changed_def options_changed_def)

lemma fold_host_write_calls [simp]:
  "onSave_calls (fold host_write_apply ws s) = onSave_calls s"
  by (induction ws arbitrary: s) simp_all

lemma host_write_apply_viewing:
  "\<not> isEditing s \<Longrightarrow> \<not> isEditing (host_write_apply w s)"
  by (cases w) (simp_all add: values_changed_def options_changed_def)

lemma fold_host_write_viewing:
  "\<not> isEditing s \<Longrightarrow> \<not> isEditing (fold host_write_apply ws s)"
  by (induction ws arbitrary: s) (simp_all add: host_write_apply_viewing)

lemma fold_host_write_SetValues:
  "SetValues v \<in> set ws \<Longrightarrow> \<not> isEditing (fold host_write_apply ws s)"
proof (induction ws arbitrary: s)
  case Nil
  then show ?case by simp
next
  case (Cons w ws)
  show ?case
  proof (cases "w = SetValues v")
    case True
    then have "\<not> isEditing (host_write_apply w s)"
      by (simp add: values_changed_def)
    then show ?thesis
      by (simp add: fold_host_write_viewing)
  next
    case False
    then show ?thesis
      using Cons by simp
  qed
qed

lemma call_onSave_calls:
  "onSave_calls (call_onSave onSave nv no s) = onSave_calls s @ [(nv, no)]"
  by (simp add: call_onSave_def)

lemma call_onSave_viewing:
  "SetValues v \<in> set (onSave nv no) \<Longrightarrow> \<not> isEditing (call_onSave onSave nv no s)"
  by (simp add: call_onSave_def fold_host_write_SetValues)

lemma save_calls:
  assumes "tokenFieldHolder s = Some tf"
  shows "onSave_calls (save onSave s)
         = (if valuesObs s = fst (save_candidate (save_tokens tf))
               \<and> isEqual_Map (choiceOptionsByName s) (snd (save_candidate (save_tokens tf)))
            then onSave_calls s
            else onSave_calls s @ [save_candidate (save_tokens tf)])"
  using assms
  by (cases "save_candidate (save_tokens tf)") (auto simp add: save_def Let_def call_onSave_def)

lemma save_unchanged_viewing:
  assumes "tokenFieldHolder s = Some tf"
    and "valuesObs s = fst (save_candidate (save_tokens tf))"
    and "isEqual_Map (choiceOptionsByName s) (snd (save_candidate (save_tokens tf)))"
  shows "\<not> isEditing (save onSave s)"
  using assms
  by (cases "save_candidate (save_tokens tf)") (auto simp add: save_def Let_def)

lemma distinct_keys_candidate:
  "distinct (map fst (snd (save_candidate ts)))"
  using baseUniq_distinct [of label ts "[]"]
  by (simp add: save_candidate_eq uniqBy_def distinct_keys_spec_mapping)

lemma uniqBy_distinct_id: "distinct (map f xs) \<Longrightarrow> uniqBy xs f = xs"
  using baseUniq_id [of f xs "[]"] by (simp add: uniqBy_def)

lemma map_label_initialValue: "map label (initialValue s) = valuesObs s"
  by (simp add: initialValue_def new_ChoiceItem_def comp_def)

lemma Map_get_initial_mapping:
  "distinct vs \<Longrightarrow>
   Map_get (spec_mapping (map (\<lambda>l. new_ChoiceItem l (Map_get m l)) vs)) k
   = (if k \<in> set vs then Map_get m k else None)"
proof (induction vs)
  case Nil
  show ?case by simp
next
  case (Cons v vs)
  then show ?case
    by (cases "Map_get m v") (auto simp add: new_ChoiceItem_def)
qed

lemma save_after_startEditing:
  assumes viewing: "\<not> isEditing s"
    and dv: "distinct (valuesObs s)"
    and dk: "distinct (map fst (choiceOptionsByName s))"
    and sub: "fst ` set (choiceOptionsByName s) \<subseteq> set (valuesObs s)"
  shows "onSave_calls (save onSave (startEditing s)) = onSave_calls s
         \<and> \<not> isEditing (save onSave (startEditing s))"
proof -
  let ?s = "startEditing s"
  let ?tf = "TokenField_create (initialValue s)"
  have holder: "tokenFieldHolder ?s = Some ?tf"
    and vals: "valuesObs ?s = valuesObs s"
    and opts: "choiceOptionsByName ?s = choiceOptionsByName s"
    and calls: "onSave_calls ?s = onSave_calls s"
    using viewing
    by (simp_all add: startEditing_def isEditing_set_def buildDom_mode_def initialValue_def)
  have toks: "save_tokens ?tf = initialValue s"
    by (simp add: save_tokens_def TokenField_create_def)
  have uniq: "uniqBy (initialValue s) label = initialValue s"
    using dv by (simp add: uniqBy_distinct_id map_label_initialValue)
  have cand: "save_candidate (save_tokens ?tf) = (valuesObs s, spec_mapping (initialValue s))"
    by (simp add: toks save_candidate_eq uniq map_label_initialValue)
  have "Map_get (choiceOptionsByName s) k = Map_get (spec_mapping (initialValue s)) k" for k
    using Map_get_initial_mapping [OF dv, of "choiceOptionsByName s" k] sub
      Map_get_None_iff [of "choiceOptionsByName s" k]
    by (auto simp add: initialValue_def)
  then have "Map_get (choiceOptionsByName s) = Map_get (spec_mapping (initialValue s))"
    by (simp add: fun_eq_iff)
  moreover have "distinct (map fst (spec_mapping (initialValue s)))"
    using dv by (simp add: distinct_keys_spec_mapping map_label_initialValue)
  ultimately have eq: "isEqual_Map (choiceOptionsByName ?s) (snd (save_candidate (save_tokens ?tf)))"
    using dk by (simp add: isEqual_Map_iff cand opts)
  have v: "valuesObs ?s = fst (save_candidate (save_tokens ?tf))"
    by (simp add: cand vals)
  show ?thesis
    using save_calls [OF holder, of onSave] save_unchanged_viewing [OF holder v eq, of onSave] v eq calls
    by simp
qed

lemma dispatch_step:
  assumes "writes_values onSave" "isEditing s"
  shows "onSave_calls (dispatch onSave e s) = onSave_calls s
         \<or> (\<exists>c. onSave_calls (dispatch onSave e s) = onSave_calls s @ [c])
            \<and> \<not> isEditing (dispatch onSave e s)"
proof -
  have sv: "onSave_calls (save onSave s) = onSave_calls s
         \<or> (\<exists>c. onSave_calls (save onSave s) = onSave_calls s @ [c]) \<and> \<not> isEditing (save onSave s)"
  proof (cases "tokenFieldHolder s")
    case None
    then show ?thesis by (simp add: save_def)
  next
    case (Some tf)
    obtain nv no where c: "save_candidate (save_tokens tf) = (nv, no)"
      by (cases "save_candidate (save_tokens tf)")
    obtain v where "SetValues v \<in> set (onSave nv no)"
      using assms(1) by (auto simp add: writes_values_def)
    then have "\<not> isEditing (call_onSave onSave nv no s')" for s'
      by (rule call_onSave_viewing)
    then show ?thesis
      using Some c by (auto simp add: save_def Let_def call_onSave_calls)
  qed
  show ?thesis
    using sv assms(2)
    by (cases e) (simp_all add: values_changed_def options_changed_def)
qed

lemmas editor_defs =
  save_def save_tokens_def save_candidate_def uniqBy_def newOptions_set_def isEqual_Map_def
  call_onSave_def startEditing_def isEditing_set_def buildDom_mode_def TokenField_create_def
  initialValue_def new_ChoiceItem_def cancel_def values_changed_def options_changed_def
  new_ChoiceListEntry_def run_def Let_def

lemmas view_defs =
  buildDom_view_def someValues_def slice0_def Number_toString_def digit_char_def
  getFillColor_def UNSET_COLOR_def spec_view_rows_def Let_def


section \<open>Properties of the JSON functions\<close>

subsection \<open>A quoted string is read back\<close>

lemma skip_ws_nonws: "\<not> is_ws c \<Longrightarrow> skip_ws (c # cs) = c # cs"
  by (simp add: skip_ws_def)

lemma hex_digit_value: "d < 16 \<Longrightarrow> hex_value (hex_digit d) = Some d"
proof -
  assume "d < 16"
  then have "d = 0 \<or> d = 1 \<or> d = 2 \<or> d = 3 \<or> d = 4 \<or> d = 5 \<or> d = 6 \<or> d = 7 \<or> d = 8
      \<or> d = 9 \<or> d = 10 \<or> d = 11 \<or> d = 12 \<or> d = 13 \<or> d = 14 \<or> d = 15"
    by arith
  then show ?thesis
    by (elim disjE) (simp_all add: hex_digit_def hex_value_def str_def)
qed

lemma hex_digits_number:
  fixes n :: nat
  shows "((n div 4096 * 16 + n div 256 mod 16) * 16 + n div 16 mod 16) * 16 + n mod 16 = n"
proof -
  have a: "n div 16 * 16 + n mod 16 = n"
    by simp
  have "n div 256 = n div 16 div 16"
    by (simp add: div_mult2_eq)
  then have b: "n div 256 * 16 + n div 16 mod 16 = n div 16"
    by (simp only: div_mult_mod_eq)
  have "n div 4096 = n div 256 div 16"
    by (simp add: div_mult2_eq)
  then have c: "n div 4096 * 16 + n div 256 mod 16 = n div 256"
    by (simp only: div_mult_mod_eq)
  show ?thesis
    by (simp only: c b a)
qed

lemma unat_code_unit: "unat (c :: code_unit) < 65536"
  using unsigned_less [of c] by simp

lemma unicode_escape_digits:
  "unicode_escape (hex_digit (unat c div 4096)) (hex_digit (unat c div 256 mod 16))
     (hex_digit (unat c div 16 mod 16)) (hex_digit (unat c mod 16)) = Some c"
proof -
  let ?n = "unat c"
  have a: "hex_value (hex_digit (?n div 4096)) = Some (?n div 4096)"
    using unat_code_unit [of c] by (intro hex_digit_value) simp
  have b: "hex_value (hex_digit (?n div 256 mod 16)) = Some (?n div 256 mod 16)"
    by (intro hex_digit_value) simp
  have d: "hex_value (hex_digit (?n div 16 mod 16)) = Some (?n div 16 mod 16)"
    by (intro hex_digit_value) simp
  have e: "hex_value (hex_digit (?n mod 16)) = Some (?n mod 16)"
    by (intro hex_digit_value) simp
  have "((?n div 4096 * 16 + ?n div 256 mod 16) * 16 + ?n div 16 mod 16) * 16 + ?n mod 16 = ?n"
    by (rule hex_digits_number)
  then show ?thesis
    by (simp only: unicode_escape_def a b d e option.case) simp
qed

lemma parse_chars_UnicodeEscape:
  "parse_chars (UnicodeEscape c @ rest) = cons_char c (parse_chars rest)"
  by (simp add: UnicodeEscape_def unicode_escape_digits)

lemma parse_chars_plain:
  "c \<noteq> DQUOTE \<Longrightarrow> c \<noteq> BACKSLASH \<Longrightarrow> \<not> unat c < 32 \<Longrightarrow>
   parse_chars (c # rest) = cons_char c (parse_chars rest)"
  by simp

lemma surrogate_plain:
  "is_leading_surrogate c \<or> is_trailing_surrogate c \<Longrightarrow>
   c \<noteq> DQUOTE \<and> c \<noteq> BACKSLASH \<and> \<not> unat c < 32"
  by (auto simp add: is_leading_surrogate_def is_trailing_surrogate_def)

lemma parse_chars_quote_unit:
  "parse_chars (quote_unit c @ rest) = cons_char c (parse_chars rest)"
proof -
  consider "c = DQUOTE" | "c = BACKSLASH" | "c = 0x08" | "c = 0x0C" | "c = 0x0A"
    | "c = 0x0D" | "c = 0x09"
    | "c \<notin> {DQUOTE, BACKSLASH, 0x08, 0x0C, 0x0A, 0x0D, 0x09}"
      "unat c < 32 \<or> is_leading_surrogate c \<or> is_trailing_surrogate c"
    | "c \<notin> {DQUOTE, BACKSLASH, 0x08, 0x0C, 0x0A, 0x0D, 0x09}"
      "\<not> (unat c < 32 \<or> is_leading_surrogate c \<or> is_trailing_surrogate c)"
    by blast
  then show ?thesis
  proof cases
    case 8
    then have "quote_unit c = UnicodeEscape c"
      by (simp add: quote_unit_def)
    then show ?thesis
      by (simp only: parse_chars_UnicodeEscape)
  next
    case 9
    then show ?thesis
      by (simp add: quote_unit_def)
  qed (simp_all add: quote_unit_def simple_escape_def)
qed

lemma parse_chars_closing: "parse_chars (DQUOTE # rest) = Some ([], rest)"
  by simp

lemma parse_chars_quoted:
  "parse_chars (quote_units s @ DQUOTE # rest) = Some (s, rest)"
proof (induction s rule: quote_units.induct)
  case 1
  show ?case by simp
next
  case (2 c)
  show ?case
    by (simp add: parse_chars_quote_unit parse_chars_closing cons_char_def del: parse_chars.simps)
next
  case (3 c d cs)
  show ?case
  proof (cases "is_leading_surrogate c \<and> is_trailing_surrogate d")
    case True
    then have c: "c \<noteq> DQUOTE \<and> c \<noteq> BACKSLASH \<and> \<not> unat c < 32"
      and d: "d \<noteq> DQUOTE \<and> d \<noteq> BACKSLASH \<and> \<not> unat d < 32"
      using surrogate_plain [of c] surrogate_plain [of d] by simp_all
    have "parse_chars (c # d # quote_units cs @ DQUOTE # rest)
          = cons_char c (cons_char d (parse_chars (quote_units cs @ DQUOTE # rest)))"
      using c d by (simp add: parse_chars_plain del: parse_chars.simps)
    then show ?thesis
      using True 3(1) by (simp add: cons_char_def del: parse_chars.simps)
  next
    case False
    then have q: "quote_units (c # d # cs) = quote_unit c @ quote_units (d # cs)"
      by auto
    have "parse_chars (quote_unit c @ quote_units (d # cs) @ DQUOTE # rest)
          = cons_char c (Some (d # cs, rest))"
      using 3(2) [OF False] by (simp only: parse_chars_quote_unit)
    then show ?thesis
      by (simp add: q cons_char_def del: parse_chars.simps quote_units.simps)
  qed
qed

subsection \<open>The parser, one step at a time\<close>

lemma parse_value_string:
  "parse_value (Suc n) (DQUOTE # cs)
   = (case parse_chars cs of None \<Rightarrow> None | Some (chars, r) \<Rightarrow> Some (JString chars, r))"
  by (simp add: skip_ws_def is_ws_def)

lemma parse_value_array_empty:
  "parse_value (Suc n) (U (CHR ''['') # U (CHR '']'') # r) = Some (JArray [], r)"
  by (simp add: skip_ws_def is_ws_def)

lemma parse_value_array:
  "\<not> is_ws d \<Longrightarrow> d \<noteq> U (CHR '']'') \<Longrightarrow>
   parse_value (Suc n) (U (CHR ''['') # d # r)
   = (case parse_elements n (d # r) of None \<Rightarrow> None | Some (vs, r') \<Rightarrow> Some (JArray vs, r'))"
  by (simp add: skip_ws_def is_ws_def)

lemma parse_value_object_empty:
  "parse_value (Suc n) (U (CHR ''{'') # U (CHR ''}'') # r) = Some (JObject [], r)"
  by (simp add: skip_ws_def is_ws_def)

lemma parse_value_object:
  "parse_value (Suc n) (U (CHR ''{'') # DQUOTE # r)
   = (case parse_members n (DQUOTE # r) of
        None \<Rightarrow> None
      | Some (ms, r') \<Rightarrow> Some (JObject (object_of_members ms), r'))"
  by (simp add: skip_ws_def is_ws_def)

lemma parse_value_null: "parse_value (Suc n) (str ''null'' @ r) = Some (JNull, r)"
  by (simp add: skip_ws_def is_ws_def str_def)

lemma parse_value_true: "parse_value (Suc n) (str ''true'' @ r) = Some (JBool True, r)"
  by (simp add: skip_ws_def is_ws_def str_def)

lemma parse_value_false: "parse_value (Suc n) (str ''false'' @ r) = Some (JBool False, r)"
  by (simp add: skip_ws_def is_ws_def str_def)

lemma parse_elements_last:
  "parse_value n s = Some (v, U (CHR '']'') # r) \<Longrightarrow> parse_elements (Suc n) s = Some ([v], r)"
  by (simp add: skip_ws_def is_ws_def)

lemma parse_elements_more:
  "parse_value n s = Some (v, U (CHR '','') # r) \<Longrightarrow> parse_elements n r = Some (vs, r') \<Longrightarrow>
   parse_elements (Suc n) s = Some (v # vs, r')"
  by (simp add: skip_ws_def is_ws_def)

lemma parse_members_last:
  "parse_chars s = Some (k, U (CHR '':'') # r2) \<Longrightarrow> parse_value n r2 = Some (v, U (CHR ''}'') # r) \<Longrightarrow>
   parse_members (Suc n) (DQUOTE # s) = Some ([(k, v)], r)"
  by (simp add: skip_ws_def is_ws_def)

lemma parse_members_more:
  "parse_chars s = Some (k, U (CHR '':'') # r2) \<Longrightarrow> parse_value n r2 = Some (v, U (CHR '','') # r) \<Longrightarrow>
   parse_members n r = Some (ms, r') \<Longrightarrow>
   parse_members (Suc n) (DQUOTE # s) = Some ((k, v) # ms, r')"
  by (simp add: skip_ws_def is_ws_def)

lemma object_of_members_gen:
  "distinct (map fst ms) \<Longrightarrow> fst ` set ms \<inter> fst ` set acc = {} \<Longrightarrow>
   fold (\<lambda>(k, v) obj. Map_set obj k v) ms acc = acc @ ms"
proof (induction ms arbitrary: acc)
  case Nil
  show ?case by simp
next
  case (Cons m ms)
  obtain k v where m: "m = (k, v)" by (cases m)
  have fresh: "k \<notin> fst ` set acc"
    using Cons.prems m by auto
  have "fst ` set ms \<inter> fst ` set (acc @ [(k, v)]) = {}"
    using Cons.prems m by auto
  then have "fold (\<lambda>(k, v) obj. Map_set obj k v) ms (acc @ [(k, v)]) = (acc @ [(k, v)]) @ ms"
    using Cons.prems by (intro Cons.IH) simp_all
  then show ?case
    using fresh m by (simp add: Map_set_fresh)
qed

lemma printable_members_distinct: "printable_members ms \<Longrightarrow> distinct (map fst ms)"
  by (induction ms) force+

lemma object_of_members_printable: "printable_members ms \<Longrightarrow> object_of_members ms = ms"
  using object_of_members_gen [of ms "[]"] printable_members_distinct [of ms]
  by (simp add: object_of_members_def)

subsection \<open>\<^verbatim>\<open>JSON.parse\<close> reads back what \<^verbatim>\<open>JSON.stringify\<close> writes\<close>

lemma stringify_first:
  "printable v \<Longrightarrow> \<exists>d ds. JSON_stringify v = d # ds \<and> \<not> is_ws d \<and> d \<noteq> U (CHR '']'')"
  by (cases v) (simp_all add: is_ws_def QuoteJSONString_def str_def)

lemma calls_pos: "0 < calls v"
  by (cases v) simp_all

lemma QuoteJSONString_append:
  "QuoteJSONString k @ r = DQUOTE # (quote_units k @ DQUOTE # r)"
  by (simp add: QuoteJSONString_def)

lemma stringify_roundtrip:
  "printable v \<Longrightarrow> calls v \<le> n \<Longrightarrow> parse_value n (JSON_stringify v @ r) = Some (v, r)"
  "printable_elements vs \<Longrightarrow> vs \<noteq> [] \<Longrightarrow> calls_elements vs \<le> n \<Longrightarrow>
     parse_elements n (stringify_elements vs @ r) = Some (vs, r)"
  "printable_members ms \<Longrightarrow> ms \<noteq> [] \<Longrightarrow> calls_members ms \<le> n \<Longrightarrow>
     parse_members n (stringify_members ms @ r) = Some (ms, r)"
proof (induction v and vs and ms arbitrary: n r and n r and n r
       rule: JSON_stringify_stringify_elements_stringify_members.induct)
  case 1
  then obtain n' where "n = Suc n'" by (cases n) simp_all
  then show ?case
    using parse_value_null [of n' r] by simp
next
  case (2 b)
  then obtain n' where "n = Suc n'" by (cases n) simp_all
  then show ?case
    using parse_value_true [of n' r] parse_value_false [of n' r] by simp
next
  case (3 num)
  then show ?case by simp
next
  case (4 s)
  then obtain n' where "n = Suc n'" by (cases n) simp_all
  then show ?case
    by (simp add: QuoteJSONString_def parse_value_string parse_chars_quoted
        del: parse_value.simps)
next
  case (5 vs)
  from 5(3) obtain n' where n: "n = Suc n'" and le: "calls_elements vs \<le> n'"
    by (cases n) simp_all
  show ?case
  proof (cases vs)
    case Nil
    then show ?thesis
      using n parse_value_array_empty [of n' r] by simp
  next
    case (Cons w ws)
    have pe: "printable_elements vs"
      using 5(2) by simp
    then have "printable w"
      using Cons by simp
    then obtain d ds where d: "JSON_stringify w = d # ds" "\<not> is_ws d" "d \<noteq> U (CHR '']'')"
      using stringify_first by blast
    have el: "parse_elements n' (stringify_elements vs @ r) = Some (vs, r)"
      using pe Cons le by (intro 5(1)) simp_all
    obtain t where t: "stringify_elements vs @ r = d # t"
      using Cons d by simp
    have "parse_value (Suc n') (U (CHR ''['') # d # t) = Some (JArray vs, r)"
      using el t d(2,3) parse_value_array [of d n' t] by (simp del: parse_value.simps)
    then show ?thesis
      using n t by simp
  qed
next
  case (6 ms)
  from 6(3) obtain n' where n: "n = Suc n'" and le: "calls_members ms \<le> n'"
    by (cases n) simp_all
  show ?case
  proof (cases ms)
    case Nil
    then show ?thesis
      using n parse_value_object_empty [of n' r] by simp
  next
    case (Cons m ms')
    obtain k w where m: "m = (k, w)" by (cases m)
    have pm: "printable_members ms"
      using 6(2) by simp
    have me: "parse_members n' (stringify_members ms @ r) = Some (ms, r)"
      using pm Cons le by (intro 6(1)) simp_all
    obtain t where t: "stringify_members ms @ r = DQUOTE # t"
      using Cons m by (simp add: QuoteJSONString_def)
    have "parse_value (Suc n') (U (CHR ''{'') # DQUOTE # t) = Some (JObject ms, r)"
      using me t pm parse_value_object [of n' t]
      by (simp add: object_of_members_printable del: parse_value.simps)
    then show ?thesis
      using n t by simp
  qed
next
  case 7
  then show ?case by simp
next
  case (8 v vs)
  from 8(5) obtain n' where n: "n = Suc n'" and lv: "calls v \<le> n'" and le: "calls_elements vs \<le> n'"
    by (cases n) simp_all
  have pv: "printable v" and pe: "printable_elements vs"
    using 8(3) by simp_all
  show ?case
  proof (cases "vs = []")
    case True
    have "parse_value n' (JSON_stringify v @ U (CHR '']'') # r) = Some (v, U (CHR '']'') # r)"
      using pv lv by (rule 8(1))
    then have "parse_elements (Suc n') (JSON_stringify v @ U (CHR '']'') # r) = Some ([v], r)"
      by (rule parse_elements_last)
    then show ?thesis
      using True n by simp
  next
    case False
    have "parse_value n' (JSON_stringify v @ U (CHR '','') # stringify_elements vs @ r)
          = Some (v, U (CHR '','') # stringify_elements vs @ r)"
      using pv lv by (rule 8(1))
    moreover have "parse_elements n' (stringify_elements vs @ r) = Some (vs, r)"
      using False pe False le by (rule 8(2))
    ultimately have "parse_elements (Suc n') (JSON_stringify v @ U (CHR '','') # stringify_elements vs @ r)
          = Some (v # vs, r)"
      by (rule parse_elements_more)
    then show ?thesis
      using False n by simp
  qed
next
  case 9
  then show ?case by simp
next
  case (10 k v ms)
  from 10(5) obtain n' where n: "n = Suc n'" and lv: "calls v \<le> n'" and le: "calls_members ms \<le> n'"
    by (cases n) simp_all
  have pv: "printable v" and pm: "printable_members ms"
    using 10(3) by simp_all
  show ?case
  proof (cases "ms = []")
    case True
    have "parse_chars (quote_units k @ DQUOTE # U (CHR '':'') # JSON_stringify v @ U (CHR ''}'') # r)
          = Some (k, U (CHR '':'') # JSON_stringify v @ U (CHR ''}'') # r)"
      by (rule parse_chars_quoted)
    moreover have "parse_value n' (JSON_stringify v @ U (CHR ''}'') # r) = Some (v, U (CHR ''}'') # r)"
      using pv lv by (rule 10(1))
    ultimately have "parse_members (Suc n')
         (DQUOTE # quote_units k @ DQUOTE # U (CHR '':'') # JSON_stringify v @ U (CHR ''}'') # r)
          = Some ([(k, v)], r)"
      by (rule parse_members_last)
    then show ?thesis
      using True n by (simp add: QuoteJSONString_def)
  next
    case False
    let ?rest = "stringify_members ms @ r"
    have "parse_chars (quote_units k @ DQUOTE # U (CHR '':'') # JSON_stringify v @ U (CHR '','') # ?rest)
          = Some (k, U (CHR '':'') # JSON_stringify v @ U (CHR '','') # ?rest)"
      by (rule parse_chars_quoted)
    moreover have "parse_value n' (JSON_stringify v @ U (CHR '','') # ?rest) = Some (v, U (CHR '','') # ?rest)"
      using pv lv by (rule 10(1))
    moreover have "parse_members n' ?rest = Some (ms, r)"
      using False pm False le by (rule 10(2))
    ultimately have "parse_members (Suc n')
         (DQUOTE # quote_units k @ DQUOTE # U (CHR '':'') # JSON_stringify v @ U (CHR '','') # ?rest)
          = Some ((k, v) # ms, r)"
      by (rule parse_members_more)
    then show ?thesis
      using False n by (simp add: QuoteJSONString_def)
  qed
qed

lemma calls_le_length:
  "calls v \<le> length (JSON_stringify v) \<or> \<not> printable v"
  "calls_elements vs \<le> length (stringify_elements vs) \<or> \<not> printable_elements vs"
  "calls_members ms \<le> length (stringify_members ms) \<or> \<not> printable_members ms"
  by (induction v and vs and ms rule: JSON_stringify_stringify_elements_stringify_members.induct)
     (auto simp add: QuoteJSONString_def str_def)

lemma JSON_parse_stringify:
  assumes "printable v"
  shows "JSON_parse (JSON_stringify v) = Some v"
proof -
  have "calls v \<le> 2 * length (JSON_stringify v) + 1"
    using calls_le_length(1) [of v] assms by simp
  then have "parse_value (2 * length (JSON_stringify v) + 1) (JSON_stringify v @ []) = Some (v, [])"
    using assms by (intro stringify_roundtrip(1))
  then show ?thesis
    by (simp add: JSON_parse_def skip_ws_def)
qed


subsection \<open>The bound of \<open>JSON_parse\<close> is never exhausted\<close>

text \<open>
  Every parsing function leaves a text shorter than the one it was given, so every second
  nested call is on a shorter text: the result with the bound \<open>2 * length s + 1\<close> is the
  result with any larger bound, and a result found with a smaller bound is found with it.
  \<open>JSON_parse s = None\<close> says that the text is not JSON.
\<close>

lemma parse_value_Suc:
  "parse_value (Suc n) s = value_body (parse_elements n) (parse_members n) s"
  by (simp add: value_body_def string_body_def array_body_def object_body_def scalar_body_def
      cong: list.case_cong if_cong option.case_cong)

lemma parse_elements_Suc:
  "parse_elements (Suc n) s = elements_body (parse_value n) (parse_elements n) s"
  by (simp add: elements_body_def elements_tail_def
      cong: list.case_cong if_cong option.case_cong)

lemma parse_members_Suc:
  "parse_members (Suc n) s = members_body (parse_value n) (parse_members n) s"
  by (simp add: members_body_def member_value_def members_tail_def
      cong: list.case_cong if_cong option.case_cong)

lemma skip_ws_length: "skip_ws s = c # cs \<Longrightarrow> length cs < length s"
proof -
  assume a: "skip_ws s = c # cs"
  have "length (skip_ws s) \<le> length s"
    by (simp add: skip_ws_def length_dropWhile_le)
  then show ?thesis
    using a by simp
qed

lemma cons_char_Some:
  "cons_char c p = Some (chars, r) \<Longrightarrow> \<exists>chars'. p = Some (chars', r)"
  by (cases p) (auto simp add: cons_char_def)

lemma parse_chars_length: "parse_chars cs = Some (chars, r) \<Longrightarrow> length r < length cs"
proof (induction cs arbitrary: chars rule: parse_chars.induct)
  case 1
  then show ?case by simp
next
  case (2 c cs)
  consider (q) "c = DQUOTE"
    | (u) h1 h2 h3 h4 cs2 ch where "c \<noteq> DQUOTE" "c = BACKSLASH" "cs = U (CHR ''u'') # h1 # h2 # h3 # h4 # cs2"
        "unicode_escape h1 h2 h3 h4 = Some ch" "cons_char ch (parse_chars cs2) = Some (chars, r)"
    | (e) e cs1 ch where "c \<noteq> DQUOTE" "c = BACKSLASH" "cs = e # cs1" "e \<noteq> U (CHR ''u'')"
        "simple_escape e = Some ch" "cons_char ch (parse_chars cs1) = Some (chars, r)"
    | (p) "c \<noteq> DQUOTE" "c \<noteq> BACKSLASH" "\<not> unat c < 32"
        "cons_char c (parse_chars cs) = Some (chars, r)"
    using "2.prems"
    by (auto split: if_splits list.splits option.splits)
  then show ?case
  proof cases
    case q
    then show ?thesis using "2.prems" by simp
  next
    case u
    obtain chars' where "parse_chars cs2 = Some (chars', r)"
      using cons_char_Some [OF u(5)] by blast
    then have "length r < length cs2"
      using "2.IH"(1) u by simp
    then show ?thesis using u by simp
  next
    case e
    obtain chars' where "parse_chars cs1 = Some (chars', r)"
      using cons_char_Some [OF e(6)] by blast
    then have "length r < length cs1"
      using "2.IH"(2) e by simp
    then show ?thesis using e by simp
  next
    case p
    obtain chars' where "parse_chars cs = Some (chars', r)"
      using cons_char_Some [OF p(4)] by blast
    then have "length r < length cs"
      using "2.IH"(3) p by simp
    then show ?thesis by simp
  qed
qed

lemma parse_digits_length: "parse_digits s = Some (ds, r) \<Longrightarrow> length r < length s"
proof -
  assume a: "parse_digits s = Some (ds, r)"
  then have "takeWhile is_digit s \<noteq> []" and r: "r = dropWhile is_digit s"
    by (auto simp add: parse_digits_def split: if_splits)
  moreover have "length (takeWhile is_digit s) + length (dropWhile is_digit s) = length s"
    by (metis length_append takeWhile_dropWhile_id)
  ultimately show ?thesis
    by (cases "takeWhile is_digit s") auto
qed

lemma parse_int_length: "parse_int s = Some (i, r) \<Longrightarrow> length r < length s"
  by (cases s) (auto simp add: parse_int_def dest: parse_digits_length split: if_splits)

lemma parse_frac_length: "parse_frac s = Some (f, r) \<Longrightarrow> length r \<le> length s"
  by (cases s)
     (auto simp add: parse_frac_def dest!: parse_digits_length split: if_splits option.splits)

lemma parse_exp_length: "parse_exp s = Some (e, r) \<Longrightarrow> length r \<le> length s"
  by (cases s)
     (auto simp add: parse_exp_def dest!: parse_digits_length
        split: if_splits option.splits list.splits)

lemma parse_number_length: "parse_number s = Some (num, r) \<Longrightarrow> length r < length s"
proof -
  assume a: "parse_number s = Some (num, r)"
  obtain sign s1 where s1: "(case s of [] \<Rightarrow> ([], s) | c # cs \<Rightarrow> if c = U (CHR ''-'') then ([c], cs) else ([], s))
      = (sign, s1)"
    by (cases "(case s of [] \<Rightarrow> ([], s) | c # cs \<Rightarrow> if c = U (CHR ''-'') then ([c], cs) else ([], s))")
  then have l1: "length s1 \<le> length s"
    by (cases s) (auto split: if_splits)
  from a s1 obtain i s2 f s3 e where
    "parse_int s1 = Some (i, s2)" "parse_frac s2 = Some (f, s3)" "parse_exp s3 = Some (e, r)"
    by (auto simp add: parse_number_def split: option.splits)
  then have "length s2 < length s1" "length s3 \<le> length s2" "length r \<le> length s3"
    by (auto dest: parse_int_length parse_frac_length parse_exp_length)
  then show ?thesis
    using l1 by simp
qed

lemma scalar_body_length: "scalar_body t = Some (v, r) \<Longrightarrow> length r < length t"
  by (cases t)
     (auto simp add: scalar_body_def str_def dest: parse_number_length
       split: if_splits option.splits)

lemma string_body_length: "string_body cs = Some (v, r) \<Longrightarrow> length r < length cs"
  by (auto simp add: string_body_def dest: parse_chars_length split: option.splits)

lemma array_body_length:
  "consumes pe \<Longrightarrow> array_body pe cs = Some (v, r) \<Longrightarrow> length r < length cs"
  by (auto simp add: array_body_def consumes_def dest: skip_ws_length
      split: list.splits if_splits option.splits)

lemma object_body_length:
  "consumes pm \<Longrightarrow> object_body pm cs = Some (v, r) \<Longrightarrow> length r < length cs"
  by (auto simp add: object_body_def consumes_def dest: skip_ws_length
      split: list.splits if_splits option.splits)

lemma value_body_length:
  assumes "consumes pe" "consumes pm" "value_body pe pm s = Some (v, r)"
  shows "length r < length s"
proof -
  obtain c cs where c: "skip_ws s = c # cs"
    using assms(3) by (cases "skip_ws s") (simp_all add: value_body_def)
  then have l: "length cs < length s"
    by (rule skip_ws_length)
  have "string_body cs = Some (v, r) \<or> array_body pe cs = Some (v, r)
        \<or> object_body pm cs = Some (v, r) \<or> scalar_body (c # cs) = Some (v, r)"
    using assms(3) c by (simp add: value_body_def split: if_splits)
  then have "length r < length cs \<or> length r < length (c # cs)"
    using string_body_length array_body_length [OF assms(1)] object_body_length [OF assms(2)]
      scalar_body_length by blast
  then show ?thesis
    using l by auto
qed

lemma elements_tail_length:
  "consumes pe \<Longrightarrow> elements_tail pe v r = Some (vs, r') \<Longrightarrow> length r' < length r"
  by (fastforce simp add: elements_tail_def consumes_def dest: skip_ws_length
      split: list.splits if_splits option.splits)

lemma elements_body_length:
  "consumes pv \<Longrightarrow> consumes pe \<Longrightarrow> elements_body pv pe s = Some (vs, r') \<Longrightarrow>
   length r' < length s"
  by (fastforce simp add: elements_body_def consumes_def dest: elements_tail_length [unfolded consumes_def]
      split: option.splits)

lemma members_tail_length:
  "consumes pm \<Longrightarrow> members_tail pm k v r3 = Some (ms, r5) \<Longrightarrow> length r5 < length r3"
  by (fastforce simp add: members_tail_def consumes_def dest: skip_ws_length
      split: list.splits if_splits option.splits)

lemma member_value_length:
  assumes "consumes pv" "consumes pm" "member_value pv pm k r1 = Some (ms, r5)"
  shows "length r5 < length r1"
proof -
  obtain colon r2 v r3 where a: "skip_ws r1 = colon # r2" "pv r2 = Some (v, r3)"
      "members_tail pm k v r3 = Some (ms, r5)"
    using assms(3)
    by (auto simp add: member_value_def split: list.splits if_splits option.splits)
  have "length r2 < length r1" "length r3 < length r2" "length r5 < length r3"
    using a assms(1) skip_ws_length members_tail_length [OF assms(2)]
    by (auto simp add: consumes_def)
  then show ?thesis by simp
qed

lemma members_body_length:
  assumes "consumes pv" "consumes pm" "members_body pv pm s = Some (ms, r5)"
  shows "length r5 < length s"
proof -
  obtain q r k r1 where a: "skip_ws s = q # r" "parse_chars r = Some (k, r1)"
      "member_value pv pm k r1 = Some (ms, r5)"
    using assms(3)
    by (auto simp add: members_body_def split: list.splits if_splits option.splits)
  have "length r < length s" "length r1 < length r" "length r5 < length r1"
    using a skip_ws_length parse_chars_length member_value_length [OF assms(1,2)]
    by auto
  then show ?thesis by simp
qed

lemma parse_consumes:
  "consumes (parse_value n) \<and> consumes (parse_elements n) \<and> consumes (parse_members n)"
proof (induction n)
  case 0
  show ?case by (simp add: consumes_def)
next
  case (Suc n)
  have v: "consumes (parse_value (Suc n))"
  proof (unfold consumes_def, intro allI impI)
    fix t x r
    assume "parse_value (Suc n) t = Some (x, r)"
    then have "value_body (parse_elements n) (parse_members n) t = Some (x, r)"
      by (simp only: parse_value_Suc)
    then show "length r < length t"
      using Suc value_body_length by blast
  qed
  have e: "consumes (parse_elements (Suc n))"
  proof (unfold consumes_def, intro allI impI)
    fix t x r
    assume "parse_elements (Suc n) t = Some (x, r)"
    then have "elements_body (parse_value n) (parse_elements n) t = Some (x, r)"
      by (simp only: parse_elements_Suc)
    then show "length r < length t"
      using Suc elements_body_length by blast
  qed
  have m: "consumes (parse_members (Suc n))"
  proof (unfold consumes_def, intro allI impI)
    fix t x r
    assume "parse_members (Suc n) t = Some (x, r)"
    then have "members_body (parse_value n) (parse_members n) t = Some (x, r)"
      by (simp only: parse_members_Suc)
    then show "length r < length t"
      using Suc members_body_length by blast
  qed
  from v e m show ?case by blast
qed

lemma array_body_mono:
  "extends pe pe' \<Longrightarrow> array_body pe cs = Some x \<Longrightarrow> array_body pe' cs = Some x"
  by (auto simp add: array_body_def extends_def split: list.splits if_splits option.splits)

lemma object_body_mono:
  "extends pm pm' \<Longrightarrow> object_body pm cs = Some x \<Longrightarrow> object_body pm' cs = Some x"
  by (auto simp add: object_body_def extends_def split: list.splits if_splits option.splits)

lemma value_body_mono:
  assumes "extends pe pe'" "extends pm pm'" "value_body pe pm s = Some x"
  shows "value_body pe' pm' s = Some x"
proof -
  obtain c cs where c: "skip_ws s = c # cs"
    using assms(3) by (cases "skip_ws s") (simp_all add: value_body_def)
  show ?thesis
    using assms(3) c array_body_mono [OF assms(1)] object_body_mono [OF assms(2)]
    by (simp add: value_body_def split: if_splits)
qed

lemma elements_tail_mono:
  "extends pe pe' \<Longrightarrow> elements_tail pe v r = Some x \<Longrightarrow> elements_tail pe' v r = Some x"
  by (auto simp add: elements_tail_def extends_def split: list.splits if_splits option.splits)

lemma elements_body_mono:
  "extends pv pv' \<Longrightarrow> extends pe pe' \<Longrightarrow> elements_body pv pe s = Some x \<Longrightarrow>
   elements_body pv' pe' s = Some x"
  by (auto simp add: elements_body_def extends_def [of pv pv'] dest: elements_tail_mono
      split: option.splits)

lemma members_tail_mono:
  "extends pm pm' \<Longrightarrow> members_tail pm k v r = Some x \<Longrightarrow> members_tail pm' k v r = Some x"
  by (auto simp add: members_tail_def extends_def split: list.splits if_splits option.splits)

lemma member_value_mono:
  "extends pv pv' \<Longrightarrow> extends pm pm' \<Longrightarrow> member_value pv pm k r = Some x \<Longrightarrow>
   member_value pv' pm' k r = Some x"
  by (auto simp add: member_value_def extends_def [of pv pv'] dest: members_tail_mono
      split: list.splits if_splits option.splits)

lemma members_body_mono:
  "extends pv pv' \<Longrightarrow> extends pm pm' \<Longrightarrow> members_body pv pm s = Some x \<Longrightarrow>
   members_body pv' pm' s = Some x"
  by (auto simp add: members_body_def dest: member_value_mono
      split: list.splits if_splits option.splits)

lemma parse_extends_Suc:
  "extends (parse_value n) (parse_value (Suc n))
   \<and> extends (parse_elements n) (parse_elements (Suc n))
   \<and> extends (parse_members n) (parse_members (Suc n))"
proof (induction n)
  case 0
  show ?case by (simp add: extends_def)
next
  case (Suc n)
  have v: "extends (parse_value (Suc n)) (parse_value (Suc (Suc n)))"
  proof (unfold extends_def, intro allI impI)
    fix t x
    assume "parse_value (Suc n) t = Some x"
    then have "value_body (parse_elements n) (parse_members n) t = Some x"
      by (simp only: parse_value_Suc)
    then have "value_body (parse_elements (Suc n)) (parse_members (Suc n)) t = Some x"
      using Suc value_body_mono by blast
    then show "parse_value (Suc (Suc n)) t = Some x"
      by (simp only: parse_value_Suc)
  qed
  have e: "extends (parse_elements (Suc n)) (parse_elements (Suc (Suc n)))"
  proof (unfold extends_def, intro allI impI)
    fix t x
    assume "parse_elements (Suc n) t = Some x"
    then have "elements_body (parse_value n) (parse_elements n) t = Some x"
      by (simp only: parse_elements_Suc)
    then have "elements_body (parse_value (Suc n)) (parse_elements (Suc n)) t = Some x"
      using Suc elements_body_mono by blast
    then show "parse_elements (Suc (Suc n)) t = Some x"
      by (simp only: parse_elements_Suc)
  qed
  have m: "extends (parse_members (Suc n)) (parse_members (Suc (Suc n)))"
  proof (unfold extends_def, intro allI impI)
    fix t x
    assume "parse_members (Suc n) t = Some x"
    then have "members_body (parse_value n) (parse_members n) t = Some x"
      by (simp only: parse_members_Suc)
    then have "members_body (parse_value (Suc n)) (parse_members (Suc n)) t = Some x"
      using Suc members_body_mono by blast
    then show "parse_members (Suc (Suc n)) t = Some x"
      by (simp only: parse_members_Suc)
  qed
  from v e m show ?case by blast
qed

lemma parse_value_mono:
  "n \<le> m \<Longrightarrow> parse_value n s = Some x \<Longrightarrow> parse_value m s = Some x"
proof (induction m)
  case 0
  then show ?case by simp
next
  case (Suc m)
  show ?case
  proof (cases "n = Suc m")
    case True
    then show ?thesis using Suc.prems by simp
  next
    case False
    then have "parse_value m s = Some x"
      using Suc by simp
    then show ?thesis
      using parse_extends_Suc [of m] unfolding extends_def by blast
  qed
qed

lemma value_body_local:
  assumes "\<And>t. length t < length s \<Longrightarrow> pe t = pe' t"
    and "\<And>t. length t < length s \<Longrightarrow> pm t = pm' t"
  shows "value_body pe pm s = value_body pe' pm' s"
proof (cases "skip_ws s")
  case Nil
  then show ?thesis by (simp add: value_body_def)
next
  case (Cons c cs)
  then have "length cs < length s"
    by (rule skip_ws_length)
  then have "pe cs = pe' cs" "pm cs = pm' cs"
    using assms by simp_all
  then show ?thesis
    using Cons by (simp add: value_body_def array_body_def object_body_def split: list.split)
qed

lemma elements_tail_local:
  assumes "\<And>t. length t < length r \<Longrightarrow> pe t = pe' t"
  shows "elements_tail pe v r = elements_tail pe' v r"
proof (cases "skip_ws r")
  case Nil
  then show ?thesis by (simp add: elements_tail_def)
next
  case (Cons c r')
  then have "length r' < length r"
    by (rule skip_ws_length)
  then have "pe r' = pe' r'"
    using assms by simp
  then show ?thesis
    using Cons by (simp add: elements_tail_def)
qed

lemma elements_body_local:
  assumes "pv s = pv' s"
    and "consumes pv'"
    and "\<And>t. length t < length s \<Longrightarrow> pe t = pe' t"
  shows "elements_body pv pe s = elements_body pv' pe' s"
proof (cases "pv' s")
  case None
  then show ?thesis
    using assms(1) by (simp add: elements_body_def)
next
  case (Some a)
  obtain v r where a: "a = (v, r)" by (cases a)
  then have "length r < length s"
    using Some assms(2) by (simp add: consumes_def)
  then have "elements_tail pe v r = elements_tail pe' v r"
    using assms(3) by (intro elements_tail_local) simp
  then show ?thesis
    using Some a assms(1) by (simp add: elements_body_def)
qed

lemma members_tail_local:
  assumes "\<And>t. length t < length r \<Longrightarrow> pm t = pm' t"
  shows "members_tail pm k v r = members_tail pm' k v r"
proof (cases "skip_ws r")
  case Nil
  then show ?thesis by (simp add: members_tail_def)
next
  case (Cons c r')
  then have "length r' < length r"
    by (rule skip_ws_length)
  then have "pm r' = pm' r'"
    using assms by simp
  then show ?thesis
    using Cons by (simp add: members_tail_def)
qed

lemma member_value_local:
  assumes "\<And>t. length t < length r1 \<Longrightarrow> pv t = pv' t"
    and "consumes pv'"
    and "\<And>t. length t < length r1 \<Longrightarrow> pm t = pm' t"
  shows "member_value pv pm k r1 = member_value pv' pm' k r1"
proof (cases "skip_ws r1")
  case Nil
  then show ?thesis by (simp add: member_value_def)
next
  case (Cons colon r2)
  then have l: "length r2 < length r1"
    by (rule skip_ws_length)
  then have pv: "pv r2 = pv' r2"
    using assms(1) by simp
  show ?thesis
  proof (cases "pv' r2")
    case None
    then show ?thesis
      using Cons pv by (simp add: member_value_def)
  next
    case (Some a)
    obtain v r3 where a: "a = (v, r3)" by (cases a)
    then have "length r3 < length r2"
      using Some assms(2) by (simp add: consumes_def)
    then have "members_tail pm k v r3 = members_tail pm' k v r3"
      using assms(3) l by (intro members_tail_local) simp
    then show ?thesis
      using Cons pv Some a by (simp add: member_value_def)
  qed
qed

lemma members_body_local:
  assumes "\<And>t. length t < length s \<Longrightarrow> pv t = pv' t"
    and "consumes pv'"
    and "\<And>t. length t < length s \<Longrightarrow> pm t = pm' t"
  shows "members_body pv pm s = members_body pv' pm' s"
proof (cases "skip_ws s")
  case Nil
  then show ?thesis by (simp add: members_body_def)
next
  case (Cons q r)
  then have l: "length r < length s"
    by (rule skip_ws_length)
  show ?thesis
  proof (cases "parse_chars r")
    case None
    then show ?thesis
      using Cons by (simp add: members_body_def)
  next
    case (Some a)
    obtain k r1 where a: "a = (k, r1)" by (cases a)
    then have "length r1 < length r"
      using Some parse_chars_length by simp
    then have "member_value pv pm k r1 = member_value pv' pm' k r1"
      using assms l by (intro member_value_local) simp_all
    then show ?thesis
      using Cons Some a by (simp add: members_body_def)
  qed
qed

lemma fuel_step:
  "(2 * length s + 1 \<le> n \<longrightarrow> parse_value (Suc n) s = parse_value n s)
   \<and> (2 * length s + 2 \<le> n \<longrightarrow> parse_elements (Suc n) s = parse_elements n s)
   \<and> (2 * length s + 2 \<le> n \<longrightarrow> parse_members (Suc n) s = parse_members n s)"
proof (induction n arbitrary: s)
  case 0
  show ?case by simp
next
  case (Suc n)
  have v: "parse_value (Suc (Suc n)) s = parse_value (Suc n) s" if b: "2 * length s + 1 \<le> Suc n"
  proof -
    have "parse_elements (Suc n) t = parse_elements n t" if "length t < length s" for t
      using Suc [of t] that b by simp
    moreover have "parse_members (Suc n) t = parse_members n t" if "length t < length s" for t
      using Suc [of t] that b by simp
    ultimately have "value_body (parse_elements (Suc n)) (parse_members (Suc n)) s
          = value_body (parse_elements n) (parse_members n) s"
      by (intro value_body_local)
    then show ?thesis
      by (simp only: parse_value_Suc)
  qed
  have e: "parse_elements (Suc (Suc n)) s = parse_elements (Suc n) s" if b: "2 * length s + 2 \<le> Suc n"
  proof -
    have "parse_value (Suc n) s = parse_value n s"
      using Suc [of s] b by simp
    moreover have "consumes (parse_value n)"
      using parse_consumes by blast
    moreover have "parse_elements (Suc n) t = parse_elements n t" if "length t < length s" for t
      using Suc [of t] that b by simp
    ultimately have "elements_body (parse_value (Suc n)) (parse_elements (Suc n)) s
          = elements_body (parse_value n) (parse_elements n) s"
      by (intro elements_body_local)
    then show ?thesis
      by (simp only: parse_elements_Suc)
  qed
  have m: "parse_members (Suc (Suc n)) s = parse_members (Suc n) s" if b: "2 * length s + 2 \<le> Suc n"
  proof -
    have "parse_value (Suc n) t = parse_value n t" if "length t < length s" for t
      using Suc [of t] that b by simp
    moreover have "consumes (parse_value n)"
      using parse_consumes by blast
    moreover have "parse_members (Suc n) t = parse_members n t" if "length t < length s" for t
      using Suc [of t] that b by simp
    ultimately have "members_body (parse_value (Suc n)) (parse_members (Suc n)) s
          = members_body (parse_value n) (parse_members n) s"
      by (intro members_body_local)
    then show ?thesis
      by (simp only: parse_members_Suc)
  qed
  from v e m show ?case by blast
qed

lemma fuel_enough:
  "2 * length s + 1 \<le> n \<Longrightarrow> parse_value n s = parse_value (2 * length s + 1) s"
proof (induction n)
  case 0
  then show ?case by simp
next
  case (Suc n)
  show ?case
  proof (cases "2 * length s + 1 \<le> n")
    case True
    then have "parse_value (Suc n) s = parse_value n s"
      using fuel_step [of s n] by blast
    then show ?thesis
      using Suc.IH True by simp
  next
    case False
    then have "Suc n = 2 * length s + 1"
      using Suc.prems by simp
    then show ?thesis by (simp only:)
  qed
qed

lemma JSON_parse_any_fuel:
  assumes "parse_value n s = Some (v, r)"
  shows "JSON_parse s = (if skip_ws r = [] then Some v else None)"
proof -
  have "parse_value (2 * length s + 1) s = Some (v, r)"
  proof (cases "n \<le> 2 * length s + 1")
    case True
    then show ?thesis
      using assms by (rule parse_value_mono)
  next
    case False
    then show ?thesis
      using assms fuel_enough [of s n] by simp
  qed
  then show ?thesis
    by (simp add: JSON_parse_def)
qed


section \<open>Properties of the clipboard functions\<close>

lemma Map_get_Map_set: "Map_get (Map_set m k v) k' = (if k' = k then Some v else Map_get m k')"
  by (induction m) auto

lemma getData_setData:
  "getData (setData clipboard format d) format' = (if format' = format then d else getData clipboard format')"
  by (simp add: getData_def setData_def Map_get_Map_set)

lemma JSON_parse_empty: "JSON_parse [] = None"
  by (simp add: JSON_parse_def skip_ws_def)

lemma spec_options_shape_iff: "ChoiceOptionsType_test p \<longleftrightarrow> spec_options_shape p"
  by (auto simp add: ChoiceOptionsType_test_def spec_options_shape_def required_string_def
      typeof_string_def typeof_object_def get_prop_def split: json.splits option.splits)

lemma spec_token_shape_iff: "ChoiceItemChecker_test v \<longleftrightarrow> spec_token_shape v"
  by (auto simp add: ChoiceItemChecker_test_def spec_token_shape_def required_string_def
      typeof_string_def typeof_object_def get_prop_def spec_options_shape_iff
      split: json.splits option.splits)

lemma list_all_shape_iff: "list_all ChoiceItemChecker_test ts \<longleftrightarrow> list_all spec_token_shape ts"
  by (induction ts) (simp_all add: spec_token_shape_iff)

lemma as_ChoiceItem_denotes:
  "ChoiceItemChecker_test v \<Longrightarrow> denotes_token v (as_ChoiceItem v)"
  by (auto simp add: ChoiceItemChecker_test_def ChoiceOptionsType_test_def required_string_def
      typeof_string_def denotes_token_def as_ChoiceItem_def as_IChoiceOptions_def string_prop_def
      split: option.splits json.splits)

lemma list_all2_denotes:
  "list_all ChoiceItemChecker_test ts \<Longrightarrow> list_all2 denotes_token ts (map as_ChoiceItem ts)"
  by (induction ts) (simp_all add: as_ChoiceItem_denotes)

lemma clipboardToChoices_usable:
  assumes "JSON_parse (getData clipboard ''application/json'') = Some (JArray ts)"
    and "list_all ChoiceItemChecker_test ts"
  shows "clipboardToChoices clipboard = Inr (map as_ChoiceItem ts)"
proof -
  have "getData clipboard ''application/json'' \<noteq> []"
    using assms(1) JSON_parse_empty by auto
  then show ?thesis
    using assms
    by (simp add: clipboardToChoices_def isJSON_def Array_isArray_def array_elements_def)
qed

lemma clipboardToChoices_unusable:
  assumes "spec_unusable clipboard"
  shows "clipboardToChoices clipboard = Inr (text_choices clipboard)"
  using assms
  by (auto simp add: spec_unusable_def spec_token_list_def clipboardToChoices_def isJSON_def
      Array_isArray_def array_elements_def Let_def list_all_shape_iff
      split: option.splits json.splits)

lemma split_nonempty: "split s sep \<noteq> []"
  by (induction s) (auto split: list.splits)

lemma join_Cons: "ys \<noteq> [] \<Longrightarrow> join (x # ys) sep = x @ sep @ join ys sep"
  by (cases ys) simp_all

lemma join_split: "join (split s sep) [sep] = s"
proof (induction s)
  case Nil
  show ?case by simp
next
  case (Cons c s)
  show ?case
  proof (cases "c = sep")
    case True
    then show ?thesis
      using Cons.IH split_nonempty [of s sep] by (simp add: join_Cons)
  next
    case False
    obtain l ls where l: "split s sep = l # ls"
      using split_nonempty [of s sep] by (cases "split s sep") simp_all
    then show ?thesis
      using False Cons.IH by (cases ls) simp_all
  qed
qed

lemma length_split: "length (split s sep) = Suc (count_list s sep)"
  by (induction s) (auto split: list.splits simp add: split_nonempty)

lemma split_no_sep: "l \<in> set (split s sep) \<Longrightarrow> sep \<notin> set l"
  by (induction s arbitrary: l) (auto split: list.splits if_splits)

lemma printable_ChoiceItem_json: "printable (ChoiceItem_json order t)"
  by (simp add: ChoiceItem_json_def IChoiceOptions_json_def str_def
      split: option.splits property_order.splits)

lemma printable_tokens:
  "printable_elements (map (\<lambda>(i, t). ChoiceItem_json (order i) t) (enumerate n tokens))"
  by (induction tokens arbitrary: n) (simp_all add: printable_ChoiceItem_json)

lemma ChoiceItem_json_test: "ChoiceItemChecker_test (ChoiceItem_json order t)"
  by (simp add: ChoiceItemChecker_test_def ChoiceOptionsType_test_def required_string_def
      typeof_string_def typeof_object_def get_prop_def ChoiceItem_json_def IChoiceOptions_json_def
      str_def split: option.splits property_order.splits)

lemma tokens_test:
  "list_all ChoiceItemChecker_test
     (map (\<lambda>(i, t). ChoiceItem_json (order i) t) (enumerate n tokens))"
  by (induction tokens arbitrary: n) (simp_all add: ChoiceItem_json_test)

lemma as_ChoiceItem_json: "as_ChoiceItem (ChoiceItem_json order t) = t"
  by (cases "options t"; cases order)
     (simp_all add: as_ChoiceItem_def as_IChoiceOptions_def string_prop_def get_prop_def
        ChoiceItem_json_def IChoiceOptions_json_def str_def)

lemma as_ChoiceItem_tokens:
  "map as_ChoiceItem (map (\<lambda>(i, t). ChoiceItem_json (order i) t) (enumerate n tokens))
   = tokens"
  by (induction tokens arbitrary: n) (simp_all add: as_ChoiceItem_json)

subsection \<open>The parser on a given text\<close>

text \<open>
  The three parsing functions at a bound written as a numeral, and the definitions that
  \<open>simp\<close> unfolds to run \<open>JSON_parse\<close> on the text of an example.
\<close>

lemma parse_numeral:
  "parse_value (numeral k) s
   = value_body (parse_elements (pred_numeral k)) (parse_members (pred_numeral k)) s"
  "parse_elements (numeral k) s
   = elements_body (parse_value (pred_numeral k)) (parse_elements (pred_numeral k)) s"
  "parse_members (numeral k) s
   = members_body (parse_value (pred_numeral k)) (parse_members (pred_numeral k)) s"
  by (simp_all only: numeral_eq_Suc parse_value_Suc parse_elements_Suc parse_members_Suc)

lemmas parse_defs = JSON_parse_def skip_ws_def is_ws_def cons_char_def simple_escape_def
  unicode_escape_def hex_value_def object_of_members_def parse_number_def parse_int_def
  parse_digits_def parse_frac_def parse_exp_def is_digit_def parse_numeral
  value_body_def string_body_def array_body_def object_body_def scalar_body_def
  elements_body_def elements_tail_def members_body_def member_value_def members_tail_def
  getData_def str_def

lemmas stringify_defs = QuoteJSONString_def quote_unit_def UnicodeEscape_def hex_digit_def
  is_leading_surrogate_def is_trailing_surrogate_def ChoiceItem_json_def
  IChoiceOptions_json_def setData_def str_def

lemmas shape_defs = spec_token_list_def spec_token_shape_def spec_options_shape_def
  as_ChoiceItem_def as_IChoiceOptions_def string_prop_def get_prop_def str_def


section \<open>The claims about saving\<close>

text \<open>
  Claim C1, as amended. When save is triggered in an edit session (the holder has a token
  field) and the keys of the held options map are unique, the save callback is invoked,
  with the candidate, exactly when the candidate differs from the held pair: the value
  lists compared in order, the maps compared as mappings whatever the order of their
  entries. When they are the same the callback is not invoked and the editor goes to view
  mode. Entering edit mode from view mode and saving at once does not invoke the callback
  when the held values are pairwise distinct and every key of the held options map is one
  of the held values.
\<close>

theorem save_calls_onSave_iff_changed:
  assumes "distinct (map fst (choiceOptionsByName s))"
  shows "(tokenFieldHolder s = Some tf \<longrightarrow>
          (let candidate = save_candidate (save_tokens tf);
               same = (valuesObs s = fst candidate
                       \<and> Map_get (choiceOptionsByName s) = Map_get (snd candidate))
           in (\<not> same \<longrightarrow> onSave_calls (save onSave s) = onSave_calls s @ [candidate])
            \<and> (same \<longrightarrow> onSave_calls (save onSave s) = onSave_calls s
                         \<and> \<not> isEditing (save onSave s))))
         \<and> (\<not> isEditing s \<and> distinct (valuesObs s)
              \<and> fst ` set (choiceOptionsByName s) \<subseteq> set (valuesObs s)
            \<longrightarrow> onSave_calls (save onSave (startEditing s)) = onSave_calls s
                \<and> \<not> isEditing (save onSave (startEditing s)))"
proof -
  have iff: "isEqual_Map (choiceOptionsByName s) (snd (save_candidate (save_tokens tf)))
        \<longleftrightarrow> Map_get (choiceOptionsByName s) = Map_get (snd (save_candidate (save_tokens tf)))"
    using assms distinct_keys_candidate by (rule isEqual_Map_iff)
  have first: "tokenFieldHolder s = Some tf \<longrightarrow>
          (let candidate = save_candidate (save_tokens tf);
               same = (valuesObs s = fst candidate
                       \<and> Map_get (choiceOptionsByName s) = Map_get (snd candidate))
           in (\<not> same \<longrightarrow> onSave_calls (save onSave s) = onSave_calls s @ [candidate])
            \<and> (same \<longrightarrow> onSave_calls (save onSave s) = onSave_calls s
                         \<and> \<not> isEditing (save onSave s)))"
    using save_calls [of s tf onSave] save_unchanged_viewing [of s tf onSave] iff
    by (auto simp add: Let_def)
  show ?thesis
    using first save_after_startEditing [of s onSave] assms by blast
qed

text \<open>
  The theorem at three editors: a session that added the value B (one call), a session
  showing the held state with the map in another order (no call, view mode), and the
  values A and B with no options, edited and saved at once (no call).
\<close>

theorem save_calls_onSave_iff_changed_witness:
  "onSave_calls (save onSave_store ex_changed) = [([''A'', ''B''], [(''A'', red)])]
   \<and> onSave_calls (save onSave_store ex_reordered) = [] \<and> \<not> isEditing (save onSave_store ex_reordered)
   \<and> onSave_calls (save onSave_store (startEditing (new_ChoiceListEntry [''A'', ''B''] []))) = []"
proof -
  have differ: "Map_get [] \<noteq> Map_get [(''A'', red)]"
    by (simp add: fun_eq_iff)
  have same: "Map_get [(''A'', red), (''B'', green)] = Map_get [(''B'', green), (''A'', red)]"
    using isEqual_Map_iff [of "[(''A'', red), (''B'', green)]" "[(''B'', green), (''A'', red)]"]
    by (simp add: isEqual_Map_def)
  show ?thesis
    using differ same
      save_calls_onSave_iff_changed [of ex_changed "the (tokenFieldHolder ex_changed)" onSave_store]
      save_calls_onSave_iff_changed [of ex_reordered "the (tokenFieldHolder ex_reordered)" onSave_store]
      save_calls_onSave_iff_changed [of "new_ChoiceListEntry [''A'', ''B''] []" "TokenField_create []" onSave_store]
    by (simp add: ex_changed_def ex_reordered_def save_tokens_def save_candidate_def uniqBy_def
        newOptions_set_def new_ChoiceItem_def new_ChoiceListEntry_def Let_def options_copy)
qed

text \<open>
  Entering edit mode and saving at once does invoke the callback when a held value is
  repeated (the repetition is dropped from the candidate) and when the held map has a key
  that is not a held value (the candidate has no entry for it).
\<close>

theorem save_calls_onSave_iff_changed_counterexample:
  "onSave_calls (save onSave_later (startEditing (new_ChoiceListEntry [''A'', ''A''] [])))
     = [([''A''], [])]
   \<and> onSave_calls (save onSave_later (startEditing (new_ChoiceListEntry [''A''] [(''B'', red)])))
     = [([''A''], [])]"
  by (simp add: editor_defs)

text \<open>
  Claim C2. The token list \<^verbatim>\<open>_save\<close> works on is the session's tokens followed, when
  the pending text is not empty, by one token for that text without colour options; the
  tokens that survive are a deduplication by label of that list; the new value list is the
  labels of the surviving tokens in their order; and the new map has exactly one entry
  (label, options) for each surviving token that carries options, in their order, and no
  entry for a token without options.
\<close>

theorem save_candidate_refines_spec:
  "save_tokens tf = tokensObs tf @ spec_pending (getTextInputValue tf)
   \<and> spec_dedup (save_tokens tf) (uniqBy (save_tokens tf) label)
   \<and> save_candidate (save_tokens tf)
       = (map label (uniqBy (save_tokens tf) label), spec_mapping (uniqBy (save_tokens tf) label))"
  using save_tokens_eq [of tf] uniqBy_dedup [of "save_tokens tf"] save_candidate_eq [of "save_tokens tf"]
  by simp

text \<open>The theorem at a session with a repeated label and a pending text.\<close>

theorem save_candidate_refines_spec_witness:
  "save_candidate (save_tokens
      \<lparr>tokensObs = [\<lparr>label = ''A'', options = Some red\<rparr>, \<lparr>label = ''B'', options = None\<rparr>,
                    \<lparr>label = ''A'', options = Some green\<rparr>],
       getTextInputValue = ''C''\<rparr>)
   = ([''A'', ''B'', ''C''], [(''A'', red)])"
  using save_candidate_refines_spec
    [of "\<lparr>tokensObs = [\<lparr>label = ''A'', options = Some red\<rparr>, \<lparr>label = ''B'', options = None\<rparr>,
                    \<lparr>label = ''A'', options = Some green\<rparr>],
       getTextInputValue = ''C''\<rparr>"]
  by (simp add: spec_pending_def uniqBy_def save_tokens_def new_ChoiceItem_def)

text \<open>
  Claim C9. Let \<open>t\<close> be the first token with its label in the saved sequence
  (no token of \<open>pre\<close> has it). The saved value list holds that label exactly once, right
  after the labels of the tokens that survive from \<open>pre\<close>, and the options saved for the
  label are those of \<open>t\<close> (none when \<open>t\<close> has none), whatever the options of the tokens
  with the same label in \<open>post\<close>.
\<close>

theorem save_keeps_first_occurrence:
  assumes "label t \<notin> label ` set pre"
  shows "fst (save_candidate (pre @ t # post))
           = map label (uniqBy pre label) @ label t
             # map label (uniqBy (filter (\<lambda>u. label u \<notin> set (map label (pre @ [t]))) post) label)
         \<and> count_list (fst (save_candidate (pre @ t # post))) (label t) = 1
         \<and> Map_get (snd (save_candidate (pre @ t # post))) (label t) = options t"
proof -
  let ?ts = "pre @ t # post"
  have vals: "fst (save_candidate ?ts)
           = map label (uniqBy pre label) @ label t
             # map label (uniqBy (filter (\<lambda>u. label u \<notin> set (map label (pre @ [t]))) post) label)"
    using uniqBy_first [OF assms, of post] by (simp add: save_candidate_eq)
  have d: "distinct (map label (uniqBy ?ts label))"
    using baseUniq_distinct [of label ?ts "[]"] by (simp add: uniqBy_def)
  have mem: "t \<in> set (uniqBy ?ts label)"
    using uniqBy_first [OF assms, of post] by simp
  then have "label t \<in> set (map label (uniqBy ?ts label))"
    by force
  then have cnt: "count_list (fst (save_candidate ?ts)) (label t) = 1"
    using d by (simp add: save_candidate_eq count_list_distinct)
  have "Map_get (snd (save_candidate ?ts)) (label t) = options t"
    using Map_get_spec_mapping [OF d mem] by (simp add: save_candidate_eq)
  with vals cnt show ?thesis by simp
qed

text \<open>The theorem at the tokens A without options and A with options: A is saved once,
  without options.\<close>

theorem save_keeps_first_occurrence_witness:
  "fst (save_candidate [\<lparr>label = ''A'', options = None\<rparr>, \<lparr>label = ''A'', options = Some red\<rparr>])
     = [''A'']
   \<and> Map_get (snd (save_candidate
         [\<lparr>label = ''A'', options = None\<rparr>, \<lparr>label = ''A'', options = Some red\<rparr>])) ''A'' = None"
  using save_keeps_first_occurrence
    [of "\<lparr>label = ''A'', options = None\<rparr>" "[]" "[\<lparr>label = ''A'', options = Some red\<rparr>]"]
  by (simp add: uniqBy_def)

section \<open>The claims about the edit session\<close>

text \<open>
  Claim C6, as amended. When the editor is in edit mode and the values observable changes
  from outside, the editor goes to view mode; the save callback is not invoked; the editor
  leaves the new values and the options as they are; the session is discarded: it can no
  longer be saved, and the next entry into edit mode starts a new session from the held
  values and options. A change of the options observable alone does not end the session:
  the editor stays in edit mode with the same token field, the save callback is not
  invoked, and the values and the new options are left as they are.
\<close>

theorem values_change_cancels_session:
  assumes "isEditing s"
  shows "(let s' = dispatch onSave (Values_changed v) s
          in \<not> isEditing s' \<and> onSave_calls s' = onSave_calls s
             \<and> valuesObs s' = v \<and> choiceOptionsByName s' = choiceOptionsByName s
             \<and> dispatch onSave Click_save s' = s'
             \<and> tokenFieldHolder (dispatch onSave Click_edit s')
                 = Some (TokenField_create (initialValue s')))
         \<and> (let s'' = dispatch onSave (Options_changed m) s
             in isEditing s'' \<and> tokenFieldHolder s'' = tokenFieldHolder s
                \<and> onSave_calls s'' = onSave_calls s
                \<and> valuesObs s'' = valuesObs s \<and> choiceOptionsByName s'' = m)"
  using assms
  by (simp add: Let_def values_changed_def options_changed_def cancel_def isEditing_set_def
      buildDom_mode_def startEditing_def initialValue_def)

text \<open>
  The theorem at an editor in edit mode whose values are replaced by the value Z, and whose
  options are replaced by a colour for A.
\<close>

theorem values_change_cancels_session_witness:
  "\<not> isEditing (dispatch onSave_store (Values_changed [''Z'']) ex_changed)
   \<and> onSave_calls (dispatch onSave_store (Values_changed [''Z'']) ex_changed) = []
   \<and> tokenFieldHolder (dispatch onSave_store Click_edit
         (dispatch onSave_store (Values_changed [''Z'']) ex_changed))
       = Some \<lparr>tokensObs = [\<lparr>label = ''Z'', options = None\<rparr>], getTextInputValue = []\<rparr>
   \<and> isEditing (dispatch onSave_store (Options_changed [(''A'', green)]) ex_changed)
   \<and> tokenFieldHolder (dispatch onSave_store (Options_changed [(''A'', green)]) ex_changed)
       = tokenFieldHolder ex_changed"
  using values_change_cancels_session [of ex_changed onSave_store "[''Z'']" "[(''A'', green)]"]
  by (simp add: ex_changed_def editor_defs)

text \<open>
  An editor in edit mode stays in edit mode when the options observable is written: the
  listener that cancels is on the values observable only.
\<close>

theorem values_change_cancels_session_counterexample:
  "isEditing ex_changed \<and> isEditing (dispatch onSave_store (Options_changed [(''A'', green)]) ex_changed)"
  by (simp add: ex_changed_def options_changed_def)

text \<open>
  Claim C8, as amended. When the save callback writes the values observable before it
  returns, it is invoked at most once in an edit session, whatever the events of the
  session are.
\<close>

theorem onSave_once_per_session:
  assumes "writes_values onSave" "in_session onSave evs s"
  shows "onSave_calls (run onSave evs s) = onSave_calls s
         \<or> (\<exists>c. onSave_calls (run onSave evs s) = onSave_calls s @ [c])"
  using assms(2)
proof (induction evs arbitrary: s)
  case Nil
  show ?case by (simp add: run_def)
next
  case (Cons e evs)
  let ?s = "dispatch onSave e s"
  have ed: "isEditing s" and rest: "in_session onSave evs ?s"
    using Cons.prems by simp_all
  have r: "run onSave (e # evs) s = run onSave evs ?s"
    by (simp add: run_def)
  from dispatch_step [OF assms(1) ed, of e]
  show ?case
  proof
    assume "onSave_calls ?s = onSave_calls s"
    then show ?thesis
      using Cons.IH [OF rest] r by simp
  next
    assume a: "(\<exists>c. onSave_calls ?s = onSave_calls s @ [c]) \<and> \<not> isEditing ?s"
    then have "evs = []"
      using rest by (cases evs) simp_all
    then show ?thesis
      using a r by (simp add: run_def)
  qed
qed

text \<open>A session with a host that stores the saved values: the user types C, saves, and
  the callback has been invoked once.\<close>

theorem onSave_once_per_session_witness:
  "writes_values onSave_store
   \<and> in_session onSave_store [Session_edit \<lparr>tokensObs = [], getTextInputValue = ''C''\<rparr>, Click_save]
       (startEditing (new_ChoiceListEntry [''A''] []))
   \<and> onSave_calls (run onSave_store [Session_edit \<lparr>tokensObs = [], getTextInputValue = ''C''\<rparr>, Click_save]
       (startEditing (new_ChoiceListEntry [''A''] []))) = [([''C''], [])]"
proof -
  have w: "writes_values onSave_store"
    by (auto simp add: writes_values_def onSave_store_def)
  have s: "in_session onSave_store [Session_edit \<lparr>tokensObs = [], getTextInputValue = ''C''\<rparr>, Click_save]
       (startEditing (new_ChoiceListEntry [''A''] []))"
    by (simp add: editor_defs)
  have c: "onSave_calls (run onSave_store [Session_edit \<lparr>tokensObs = [], getTextInputValue = ''C''\<rparr>, Click_save]
       (startEditing (new_ChoiceListEntry [''A''] []))) \<noteq> onSave_calls (startEditing (new_ChoiceListEntry [''A''] []))"
    by (simp add: editor_defs)
  show ?thesis
    using onSave_once_per_session [OF w s] w s c
    by (simp add: editor_defs onSave_store_def)
qed

text \<open>
  With a host whose callback writes nothing to the values observable before it returns, the
  editor stays in edit mode after the callback, and a second save in the same session
  invokes the callback again.
\<close>

theorem onSave_once_per_session_counterexample:
  "in_session onSave_later [Session_edit \<lparr>tokensObs = [], getTextInputValue = ''C''\<rparr>, Click_save, Key_Enter]
       (startEditing (new_ChoiceListEntry [''A''] []))
   \<and> onSave_calls (run onSave_later [Session_edit \<lparr>tokensObs = [], getTextInputValue = ''C''\<rparr>, Click_save, Key_Enter]
       (startEditing (new_ChoiceListEntry [''A''] []))) = [([''C''], []), ([''C''], [])]"
  by (simp add: editor_defs onSave_later_def)

section \<open>The claim about view mode\<close>

text \<open>
  Claim C7, as amended. For every list of \<open>n\<close> values and every integer row cap
  \<open>maxRows\<close> with \<open>n \<le> maxRows\<close> or \<open>2 \<le> maxRows\<close>, the rows of view mode are those
  of the reference definition: one row saying that no choice is configured when
  \<open>n = 0\<close>; one row for each value when \<open>0 < n \<le> maxRows\<close>; the rows of the first
  \<open>maxRows - 1\<close> values followed by the row "+N more", \<open>N = n - (maxRows - 1)\<close>, when
  \<open>n > maxRows\<close>.
\<close>

theorem buildDom_view_rows:
  assumes "int (length vs) \<le> maxRows \<or> 2 \<le> maxRows"
  shows "buildDom_view maxRows vs m = spec_view_rows maxRows vs m"
  using assms
  by (auto simp add: buildDom_view_def someValues_def slice0_def spec_view_rows_def Let_def min_def)

text \<open>Seven values and a cap of six rows: five rows of values and the row "+2 more".\<close>

theorem buildDom_view_rows_witness:
  "buildDom_view 6 [''A'', ''B'', ''C'', ''D'', ''E'', ''F'', ''G''] []
   = [Row_choice ''#ffffff'' ''A'', Row_choice ''#ffffff'' ''B'', Row_choice ''#ffffff'' ''C'',
      Row_choice ''#ffffff'' ''D'', Row_choice ''#ffffff'' ''E'', Row_text ''+2 more'']"
  using buildDom_view_rows [of "[''A'', ''B'', ''C'', ''D'', ''E'', ''F'', ''G'']" 6 "[]"]
  by (simp add: view_defs)

text \<open>
  Three values and a cap of one row: the reference has the single row "+3 more"; the code
  also renders the row saying that no choice is configured, because the list of values to
  show is empty.
\<close>

theorem buildDom_view_rows_counterexample:
  "buildDom_view 1 [''A'', ''B'', ''C''] []
     = [Row_text ''No choices configured'', Row_text ''+3 more'']
   \<and> spec_view_rows 1 [''A'', ''B'', ''C''] [] = [Row_text ''+3 more'']"
  by (simp add: view_defs)


section \<open>The claims about the clipboard\<close>

text \<open>
  Claim C3. When the structured field of the clipboard parses to a list and every element
  of the list has the shape of a token, \<^verbatim>\<open>clipboardToChoices\<close> returns the
  elements of that list as tokens, in order and without error; it returns the same
  whatever the plain-text field is set to; and each token returned has the label and the
  colour options of the element it comes from.
\<close>

theorem clipboardToChoices_json:
  assumes "JSON_parse (getData clipboard ''application/json'') = Some (JArray ts)"
    and "list_all spec_token_shape ts"
  shows "clipboardToChoices clipboard = Inr (map as_ChoiceItem ts)
         \<and> clipboardToChoices (setData clipboard ''text/plain'' text) = Inr (map as_ChoiceItem ts)
         \<and> list_all2 denotes_token ts (map as_ChoiceItem ts)"
proof -
  have t: "list_all ChoiceItemChecker_test ts"
    using assms(2) by (simp add: list_all_shape_iff)
  have "JSON_parse (getData (setData clipboard ''text/plain'' text) ''application/json'')
        = Some (JArray ts)"
    using assms(1) by (simp add: getData_setData)
  then have "clipboardToChoices (setData clipboard ''text/plain'' text)
             = Inr (map as_ChoiceItem ts)"
    using t by (rule clipboardToChoices_usable)
  then show ?thesis
    using clipboardToChoices_usable [OF assms(1) t] list_all2_denotes [OF t] by simp
qed

text \<open>
  The theorem at the structured text of the specification's example, beside two different
  plain texts, and at a token whose label is the character U+20AC, written in the
  structured text as the escape \<^verbatim>\<open>\u20ac\<close> and as the character itself.
\<close>

theorem clipboardToChoices_json_witness:
  "clipboardToChoices clip_json
     = Inr [\<lparr>label = str ''X'',
             options = Some \<lparr>textColor = str ''#000'', fillColor = str ''#fff''\<rparr>\<rparr>]
   \<and> clipboardToChoices (setData clip_json ''text/plain'' (str ''Y''))
     = Inr [\<lparr>label = str ''X'',
             options = Some \<lparr>textColor = str ''#000'', fillColor = str ''#fff''\<rparr>\<rparr>]
   \<and> clipboardToChoices clip_escape = Inr [\<lparr>label = [0x20AC], options = None\<rparr>]
   \<and> clipboardToChoices clip_euro = Inr [\<lparr>label = [0x20AC], options = None\<rparr>]"
proof -
  let ?ts = "[JObject [(str ''label'', JString (str ''X'')),
                (str ''options'', JObject [(str ''fillColor'', JString (str ''#fff'')),
                                           (str ''textColor'', JString (str ''#000''))])]]"
  let ?us = "[JObject [(str ''label'', JString [0x20AC])]]"
  have p: "JSON_parse (getData clip_json ''application/json'') = Some (JArray ?ts)"
    by (simp add: clip_json_def parse_defs)
  have t: "list_all spec_token_shape ?ts"
    by (simp add: shape_defs)
  have m: "map as_ChoiceItem ?ts
           = [\<lparr>label = str ''X'',
                options = Some \<lparr>textColor = str ''#000'', fillColor = str ''#fff''\<rparr>\<rparr>]"
    by (simp add: shape_defs)
  have p': "JSON_parse (getData clip_escape ''application/json'') = Some (JArray ?us)"
    by (simp add: clip_escape_def parse_defs)
  have p'': "JSON_parse (getData clip_euro ''application/json'') = Some (JArray ?us)"
    by (simp add: clip_euro_def parse_defs)
  have t': "list_all spec_token_shape ?us"
    by (simp add: shape_defs)
  have m': "map as_ChoiceItem ?us = [\<lparr>label = [0x20AC], options = None\<rparr>]"
    by (simp add: shape_defs)
  show ?thesis
    using clipboardToChoices_json [OF p t, of "str ''Y''"] m
      clipboardToChoices_json [OF p' t', of "[]"] clipboardToChoices_json [OF p'' t', of "[]"] m'
    by simp
qed

text \<open>
  Claim C4, as amended. When the structured field is absent, is not valid JSON, or parses
  to a value that is not a list of tokens, \<^verbatim>\<open>clipboardToChoices\<close> returns, without error,
  the tokens of the plain-text field: none when that text is empty, and otherwise one
  token without options for each line of the text, an empty line giving a token with an
  empty label. The lines are the pieces of the text between its newlines: joined by
  newlines they give the text back, and there is one more of them than newlines.
\<close>

theorem clipboardToChoices_text:
  assumes "spec_unusable clipboard"
  shows "clipboardToChoices clipboard
         = Inr (if getData clipboard ''text/plain'' = [] then []
                else spec_line_tokens (getData clipboard ''text/plain''))
         \<and> join (map label (spec_line_tokens (getData clipboard ''text/plain''))) [NEWLINE]
             = getData clipboard ''text/plain''
         \<and> length (spec_line_tokens (getData clipboard ''text/plain''))
             = Suc (count_list (getData clipboard ''text/plain'') NEWLINE)"
  using clipboardToChoices_unusable [OF assms]
  by (simp add: text_choices_def spec_line_tokens_def new_ChoiceItem_def Let_def comp_def
      join_split length_split)

text \<open>The theorem at a structured field that is not JSON beside the three lines X, Y and
  Z, and at a list whose element has a number as label beside the line X.\<close>

theorem clipboardToChoices_text_witness:
  "spec_unusable clip_lines
   \<and> clipboardToChoices clip_lines
     = Inr [\<lparr>label = str ''X'', options = None\<rparr>, \<lparr>label = str ''Y'', options = None\<rparr>,
            \<lparr>label = str ''Z'', options = None\<rparr>]
   \<and> spec_unusable clip_wrong_type
   \<and> clipboardToChoices clip_wrong_type = Inr [\<lparr>label = str ''X'', options = None\<rparr>]"
proof -
  have u: "spec_unusable clip_lines"
    by (simp add: spec_unusable_def clip_lines_def parse_defs)
  have t: "getData clip_lines ''text/plain''
           = str ''X'' @ [NEWLINE] @ str ''Y'' @ [NEWLINE] @ str ''Z''"
    by (simp add: clip_lines_def getData_def)
  have u': "spec_unusable clip_wrong_type"
    by (simp add: spec_unusable_def clip_wrong_type_def parse_defs shape_defs)
  have t': "getData clip_wrong_type ''text/plain'' = str ''X''"
    by (simp add: clip_wrong_type_def getData_def)
  show ?thesis
    using u clipboardToChoices_text [OF u] t u' clipboardToChoices_text [OF u'] t'
    by (simp add: spec_line_tokens_def str_def)
qed

text \<open>
  An empty text has one line, the empty one, so that one token per line would be one token
  with an empty label; the code returns no token.
\<close>

theorem clipboardToChoices_text_counterexample:
  "spec_unusable clip_empty_text
   \<and> clipboardToChoices clip_empty_text = Inr []
   \<and> spec_line_tokens (getData clip_empty_text ''text/plain'')
       = [\<lparr>label = [], options = None\<rparr>]"
proof -
  have u: "spec_unusable clip_empty_text"
    by (simp add: spec_unusable_def clip_empty_text_def parse_defs shape_defs)
  have t: "getData clip_empty_text ''text/plain'' = []"
    by (simp add: clip_empty_text_def getData_def)
  have c: "clipboardToChoices clip_empty_text = Inr []"
    using clipboardToChoices_unusable [OF u] t by (simp add: text_choices_def)
  show ?thesis
    using u c t by (simp add: spec_line_tokens_def)
qed

text \<open>
  Claim C10. When the structured field is of no use and the plain-text field is the empty
  string, \<^verbatim>\<open>clipboardToChoices\<close> returns the empty sequence of tokens.
\<close>

theorem clipboardToChoices_empty_text:
  assumes "spec_unusable clipboard" and "getData clipboard ''text/plain'' = []"
  shows "clipboardToChoices clipboard = Inr []"
  using clipboardToChoices_unusable [OF assms(1)] assms(2)
  by (simp add: text_choices_def)

text \<open>The theorem at a structured field that is an object, not a list, beside an empty
  text, and at a clipboard that holds nothing.\<close>

theorem clipboardToChoices_empty_text_witness:
  "spec_unusable clip_empty_text \<and> getData clip_empty_text ''text/plain'' = []
   \<and> clipboardToChoices clip_empty_text = Inr []
   \<and> spec_unusable [] \<and> clipboardToChoices [] = Inr []"
proof -
  have u: "spec_unusable clip_empty_text"
    by (simp add: spec_unusable_def clip_empty_text_def parse_defs shape_defs)
  have t: "getData clip_empty_text ''text/plain'' = []"
    by (simp add: clip_empty_text_def getData_def)
  have u': "spec_unusable []"
    by (simp add: spec_unusable_def getData_def)
  have t': "getData [] ''text/plain'' = []"
    by (simp add: getData_def)
  show ?thesis
    using u t clipboardToChoices_empty_text [OF u t] u' clipboardToChoices_empty_text [OF u' t']
    by simp
qed

text \<open>
  Claim C5. Decoding the clipboard that \<^verbatim>\<open>tokensToClipboard\<close> has written a list of
  tokens to gives that list back: the same labels in the same order with the same colour
  options, whatever the code units of the labels and colours are, whatever the order of
  the properties of the options objects is, and whatever the clipboard held before.
\<close>

theorem clipboard_roundtrip:
  "clipboardToChoices (tokensToClipboard order tokens clipboard) = Inr tokens"
proof -
  let ?ts = "map (\<lambda>(i, t). ChoiceItem_json (order i) t) (enumerate 0 tokens)"
  have "getData (tokensToClipboard order tokens clipboard) ''application/json''
        = JSON_stringify (JArray ?ts)"
    by (simp add: tokensToClipboard_def getData_setData)
  moreover have "JSON_parse (JSON_stringify (JArray ?ts)) = Some (JArray ?ts)"
    using printable_tokens [of order 0 tokens] by (intro JSON_parse_stringify) simp
  ultimately have
    "JSON_parse (getData (tokensToClipboard order tokens clipboard) ''application/json'')
     = Some (JArray ?ts)"
    by simp
  moreover have "list_all ChoiceItemChecker_test ?ts"
    by (rule tokens_test)
  ultimately have "clipboardToChoices (tokensToClipboard order tokens clipboard)
                   = Inr (map as_ChoiceItem ?ts)"
    by (rule clipboardToChoices_usable)
  then show ?thesis
    by (simp only: as_ChoiceItem_tokens)
qed

text \<open>
  Two tokens: what is written to the clipboard, with the quote and the line break of the
  first label escaped, its surrogate pair as it is and its lone surrogate as
  \<^verbatim>\<open>\udc00\<close>; and the theorem at these tokens.
\<close>

theorem clipboard_roundtrip_witness:
  \<open>tokensToClipboard ex_order ex_tokens []
   = [(''application/json'',
       str ''[{"label":"a'' @ [BACKSLASH] @ str ''"b'' @ [BACKSLASH] @ str ''n''
       @ [0xD83D, 0xDE00, BACKSLASH]
       @ str ''udc00","options":{"textColor":"#000","fillColor":"#f00"}},{"label":"''
       @ [0x20AC] @ str ''"}]''),
      (''text/plain'', str ''a"b'' @ [NEWLINE, 0xD83D, 0xDE00, 0xDC00, NEWLINE, 0x20AC])]
   \<and> clipboardToChoices (tokensToClipboard ex_order ex_tokens []) = Inr ex_tokens\<close>
proof -
  have \<open>tokensToClipboard ex_order ex_tokens []
   = [(''application/json'',
       str ''[{"label":"a'' @ [BACKSLASH] @ str ''"b'' @ [BACKSLASH] @ str ''n''
       @ [0xD83D, 0xDE00, BACKSLASH]
       @ str ''udc00","options":{"textColor":"#000","fillColor":"#f00"}},{"label":"''
       @ [0x20AC] @ str ''"}]''),
      (''text/plain'', str ''a"b'' @ [NEWLINE, 0xD83D, 0xDE00, 0xDC00, NEWLINE, 0x20AC])]\<close>
    by (simp add: tokensToClipboard_def ex_order_def ex_tokens_def stringify_defs)
  then show ?thesis
    using clipboard_roundtrip [of ex_order ex_tokens "[]"] by (simp only:)
qed

end

